theory Spec2Isabelle
  imports Main "HOL-Library.AList" "HOL-Library.Multiset"
begin

section \<open>Data model\<close>

text \<open>
  The module \<^verbatim>\<open>riptimize.py\<close> is written for Python 2 and the boto library.
  A Python \<^verbatim>\<open>dict\<close> is modelled as an association list with pairwise distinct keys;
  the order of the list is the order in which the dict enumerates its entries
  (\<^verbatim>\<open>items()\<close>, \<^verbatim>\<open>values()\<close>). Storing under a key that is present replaces the value in
  place, storing under a new key adds an entry, deleting removes it: this is
  \<^const>\<open>AList.update\<close> and \<^const>\<open>AList.delete\<close>. In Python 2 \<^verbatim>\<open>items()\<close> and \<^verbatim>\<open>values()\<close>
  return a fresh list, so a loop over them is a recursion over that list while the dict
  itself is passed along as state. Python integers are unbounded: \<^typ>\<open>int\<close>.
\<close>

type_synonym itype_and_az = "string \<times> string"

type_synonym inventory = "(itype_and_az \<times> int) list"

type_synonym credentials = "string \<times> string"

text \<open>The exceptions the module can raise by itself.\<close>

datatype error = KeyError | AssertionError | TypeError

text \<open>Python's \<^verbatim>\<open>d.get(key, default)\<close> and \<^verbatim>\<open>key in d\<close>.\<close>

definition dict_get :: "('k \<times> 'v) list \<Rightarrow> 'k \<Rightarrow> 'v \<Rightarrow> 'v" where
  "dict_get d k dflt = (case map_of d k of None \<Rightarrow> dflt | Some v \<Rightarrow> v)"

definition dict_in :: "'k \<Rightarrow> ('k \<times> 'v) list \<Rightarrow> bool" where
  "dict_in k d = (map_of d k \<noteq> None)"

text \<open>Python's \<^verbatim>\<open>del d[key]\<close> and \<^verbatim>\<open>d[key] -= n\<close>; both raise KeyError on an absent key.\<close>

definition dict_del :: "'k \<Rightarrow> ('k \<times> 'v) list \<Rightarrow> error + ('k \<times> 'v) list" where
  "dict_del k d = (if dict_in k d then Inr (AList.delete k d) else Inl KeyError)"

definition dict_isub :: "'k \<Rightarrow> int \<Rightarrow> ('k \<times> int) list \<Rightarrow> error + ('k \<times> int) list" where
  "dict_isub k n d =
     (case map_of d k of None \<Rightarrow> Inl KeyError | Some v \<Rightarrow> Inr (AList.update k (v - n) d))"

text \<open>
  What boto hands back: a running instance, an availability zone, a reserved-instances
  group, a pending modification, and the target configuration the module builds.
  A group object is mutable (\<^verbatim>\<open>instance_count\<close> is decremented during plan execution).
\<close>

record running_instance =
  i_instance_type :: string
  placement :: string

record zone =
  zone_name :: string
  zone_state :: string

record ri_group =
  group_id :: string
  instance_type :: string
  availability_zone :: string
  instance_count :: int

record ri_modification =
  mod_modification_id :: string
  mod_status :: string

record ri_configuration =
  cfg_availability_zone :: string
  cfg_instance_count :: int
  cfg_platform :: string

text \<open>
  The collaborators are parameters: what each boto call answers for given credentials
  and region (the filters the module passes are part of the call), the identifier
  \<^verbatim>\<open>modify_reserved_instances\<close> returns for a request, and the reading of the clock
  \<^verbatim>\<open>str(time.time())\<close> at the n-th request. The requests that change something outside
  are recorded in a trace. Every call is taken to answer; a collaborator that raises
  (network, credentials) is outside this model.
\<close>

record aws =
  get_only_instances :: "credentials \<Rightarrow> string \<Rightarrow> running_instance list"
  get_all_zones :: "credentials \<Rightarrow> string \<Rightarrow> zone list"
  describe_reserved_instances_modifications :: "credentials \<Rightarrow> string \<Rightarrow> ri_modification list"
  get_all_reserved_instances :: "credentials \<Rightarrow> string \<Rightarrow> ri_group list"
  modify_reserved_instances :: "string \<Rightarrow> string list \<Rightarrow> ri_configuration list \<Rightarrow> string"
  time_time :: "nat \<Rightarrow> string"

datatype api_call =
  ModifyReservedInstances string "string list" "ri_configuration list"
| PutMetricData string string int

section \<open>Inventories\<close>

text \<open>\<^verbatim>\<open>get_account_i_inventory\<close>: one count per (instance type, placement).\<close>

fun count_instances :: "running_instance list \<Rightarrow> inventory \<Rightarrow> inventory" where
  "count_instances [] account_inventory = account_inventory"
| "count_instances (inst # insts) account_inventory =
     (let itype_and_az = (i_instance_type inst, placement inst)
      in count_instances insts
           (case map_of account_inventory itype_and_az of
              Some n \<Rightarrow> AList.update itype_and_az (n + 1) account_inventory
            | None \<Rightarrow> AList.update itype_and_az 1 account_inventory))"

definition get_account_i_inventory :: "aws \<Rightarrow> credentials \<Rightarrow> string \<Rightarrow> inventory" where
  "get_account_i_inventory conn credentials region =
     count_instances (get_only_instances conn credentials region) []"

fun get_i_inventory_by_account_loop ::
  "aws \<Rightarrow> string \<Rightarrow> (string \<times> credentials) list \<Rightarrow> (string \<times> inventory) list
     \<Rightarrow> (string \<times> inventory) list" where
  "get_i_inventory_by_account_loop conn region [] inventory_by_account = inventory_by_account"
| "get_i_inventory_by_account_loop conn region ((account_id, credentials) # accounts)
       inventory_by_account =
     get_i_inventory_by_account_loop conn region accounts
       (AList.update account_id (get_account_i_inventory conn credentials region)
          inventory_by_account)"

definition get_i_inventory_by_account ::
  "aws \<Rightarrow> (string \<times> credentials) list \<Rightarrow> string \<Rightarrow> (string \<times> inventory) list" where
  "get_i_inventory_by_account conn all_accounts region =
     get_i_inventory_by_account_loop conn region all_accounts []"

text \<open>\<^verbatim>\<open>aggregate_inventory\<close>: the inner loop adds one account's entries, the outer loop
  runs over \<^verbatim>\<open>inventory_by_account.values()\<close>.\<close>

fun add_items :: "inventory \<Rightarrow> inventory \<Rightarrow> inventory" where
  "add_items [] i_inventory = i_inventory"
| "add_items ((itype_and_az, cnt) # items) i_inventory =
     add_items items
       (case map_of i_inventory itype_and_az of
          Some n \<Rightarrow> AList.update itype_and_az (n + cnt) i_inventory
        | None \<Rightarrow> AList.update itype_and_az cnt i_inventory)"

fun aggregate_loop :: "inventory list \<Rightarrow> inventory \<Rightarrow> inventory" where
  "aggregate_loop [] i_inventory = i_inventory"
| "aggregate_loop (account_inventory # rest) i_inventory =
     aggregate_loop rest (add_items account_inventory i_inventory)"

definition aggregate_inventory :: "(string \<times> inventory) list \<Rightarrow> inventory" where
  "aggregate_inventory inventory_by_account = aggregate_loop (map snd inventory_by_account) []"

text \<open>
  \<^verbatim>\<open>get_ri_inventory\<close>. A zone that is not available makes the module raise; the
  message is built with \<^verbatim>\<open>"... %s ... %s" % z.name, z.state\<close>, one argument for two
  conversions, so what Python raises there is a TypeError.
\<close>

fun check_zones :: "zone list \<Rightarrow> string list \<Rightarrow> error + string list" where
  "check_zones [] supported_ri_zones = Inr supported_ri_zones"
| "check_zones (z # zones) supported_ri_zones =
     (if zone_state z \<noteq> ''available'' then Inl TypeError
      else check_zones zones (supported_ri_zones @ [zone_name z]))"

fun count_reserved :: "ri_group list \<Rightarrow> inventory \<Rightarrow> inventory" where
  "count_reserved [] ri_inventory = ri_inventory"
| "count_reserved (ri_group # groups) ri_inventory =
     (let itype_and_az = (instance_type ri_group, availability_zone ri_group)
      in count_reserved groups
           (case map_of ri_inventory itype_and_az of
              Some n \<Rightarrow> AList.update itype_and_az (n + instance_count ri_group) ri_inventory
            | None \<Rightarrow> AList.update itype_and_az (instance_count ri_group) ri_inventory))"

definition get_ri_inventory ::
  "aws \<Rightarrow> credentials \<Rightarrow> string \<Rightarrow> error + (inventory \<times> string list \<times> ri_modification list)" where
  "get_ri_inventory conn ri_account_credentials region =
     (case check_zones (get_all_zones conn ri_account_credentials region) [] of
        Inl e \<Rightarrow> Inl e
      | Inr supported_ri_zones \<Rightarrow>
          let processing_modifications =
                describe_reserved_instances_modifications conn ri_account_credentials region;
              ri_inventory =
                count_reserved (get_all_reserved_instances conn ri_account_credentials region) []
          in Inr (ri_inventory, supported_ri_zones, processing_modifications))"

section \<open>Mismatch between reservations and running instances\<close>

text \<open>
  \<^verbatim>\<open>compute_ri_mistmatch\<close>: the loop over \<^verbatim>\<open>i_inventory.items()\<close> works on a copy of the
  reserved inventory. An absent key is first stored with 0, then the count is subtracted
  from the value under the key; at the end the entries with value 0 are left out.
\<close>

fun subtract_items :: "inventory \<Rightarrow> inventory \<Rightarrow> inventory" where
  "subtract_items [] mismatch = mismatch"
| "subtract_items ((itype_and_az, cnt) # items) mismatch =
     subtract_items items
       (case map_of mismatch itype_and_az of
          None \<Rightarrow> AList.update itype_and_az (0 - cnt) (AList.update itype_and_az 0 mismatch)
        | Some n \<Rightarrow> AList.update itype_and_az (n - cnt) mismatch)"

definition compute_ri_mistmatch :: "inventory \<Rightarrow> inventory \<Rightarrow> inventory" where
  "compute_ri_mistmatch ri_inventory i_inventory =
     (let mismatch = subtract_items i_inventory ri_inventory
      in filter (\<lambda>(itype_and_az, diff). diff \<noteq> 0) mismatch)"

text \<open>\<^verbatim>\<open>compute_ri_surplus\<close>: the imbalances summed by instance type.\<close>

fun compute_ri_surplus_loop :: "inventory \<Rightarrow> (string \<times> int) list \<Rightarrow> (string \<times> int) list" where
  "compute_ri_surplus_loop [] ri_surplus = ri_surplus"
| "compute_ri_surplus_loop (((itype, az), diff) # items) ri_surplus =
     compute_ri_surplus_loop items
       (case map_of ri_surplus itype of
          None \<Rightarrow> AList.update itype (0 + diff) (AList.update itype 0 ri_surplus)
        | Some n \<Rightarrow> AList.update itype (n + diff) ri_surplus)"

definition compute_ri_surplus :: "inventory \<Rightarrow> (string \<times> int) list" where
  "compute_ri_surplus clean_mismatch = compute_ri_surplus_loop clean_mismatch []"

text \<open>\<^verbatim>\<open>eliminate_unsupported_zones\<close>: two comprehensions over the same mismatch.\<close>

definition eliminate_unsupported_zones :: "inventory \<Rightarrow> string list \<Rightarrow> inventory \<times> inventory" where
  "eliminate_unsupported_zones mismatch supported_ri_zones =
     (let clean_mismatch =
            filter (\<lambda>(itype_and_az, diff). snd itype_and_az \<in> set supported_ri_zones) mismatch;
          eliminated_i_inventory =
            map (\<lambda>(itype_and_az, diff). (itype_and_az, - diff))
              (filter (\<lambda>(itype_and_az, diff). snd itype_and_az \<notin> set supported_ri_zones) mismatch)
      in (clean_mismatch, eliminated_i_inventory))"


section \<open>The greedy redistribution planner\<close>

text \<open>
  An action of the plan is the tuple (instance type, source zone, destination zone,
  count). \<^verbatim>\<open>greedy_distribution\<close> first separates the mismatch into recipients
  (negative difference) and donors (positive difference). Here the two dicts enumerate
  their entries in the order of insertion; the lemmas on the two loops below
  (\<open>compensate_correct\<close>, \<open>distribute_bounds\<close>) hold for every order of enumeration.
\<close>

type_synonym action = "string \<times> string \<times> string \<times> int"

fun split_mismatch :: "inventory \<Rightarrow> inventory \<Rightarrow> inventory \<Rightarrow> inventory \<times> inventory" where
  "split_mismatch [] recepients donors = (recepients, donors)"
| "split_mismatch ((itype_and_az, diff) # items) recepients donors =
     (if diff < 0 then split_mismatch items (AList.update itype_and_az diff recepients) donors
      else if diff > 0 then split_mismatch items recepients (AList.update itype_and_az diff donors)
      else split_mismatch items recepients donors)"

text \<open>
  The inner loop runs over the list \<^verbatim>\<open>donors.items()\<close> as it was when the loop started
  (first list argument) and meanwhile deletes from and writes to the dict \<^verbatim>\<open>donors\<close>.
  It ends at the end of the list or at \<^verbatim>\<open>break\<close>, once the deficit is not negative.
\<close>

fun compensate ::
  "string \<Rightarrow> string \<Rightarrow> (itype_and_az \<times> int) list \<Rightarrow> int \<Rightarrow> inventory \<Rightarrow> action list
     \<Rightarrow> error + (inventory \<times> action list)" where
  "compensate recepient_itype recepient_az [] deficit donors plan = Inr (donors, plan)"
| "compensate recepient_itype recepient_az (((donor_itype, donor_az), cnt) # items)
       deficit donors plan =
     (if donor_itype = recepient_itype then
        let move_count = min \<bar>deficit\<bar> cnt;
            plan1 = plan @ [(donor_itype, donor_az, recepient_az, move_count)]
        in case (if cnt = move_count then dict_del (donor_itype, donor_az) donors
                 else dict_isub (donor_itype, donor_az) move_count donors) of
             Inl e \<Rightarrow> Inl e
           | Inr donors1 \<Rightarrow>
               let deficit1 = deficit + move_count
               in if deficit1 \<ge> 0 then Inr (donors1, plan1)
                  else compensate recepient_itype recepient_az items deficit1 donors1 plan1
      else compensate recepient_itype recepient_az items deficit donors plan)"

text \<open>The outer loop, over \<^verbatim>\<open>recepients.items()\<close>.\<close>

fun distribute :: "(itype_and_az \<times> int) list \<Rightarrow> inventory \<Rightarrow> action list \<Rightarrow> error + action list" where
  "distribute [] donors plan = Inr plan"
| "distribute (((recepient_itype, recepient_az), deficit) # recepients) donors plan =
     (case compensate recepient_itype recepient_az donors deficit donors plan of
        Inl e \<Rightarrow> Inl e
      | Inr (donors1, plan1) \<Rightarrow> distribute recepients donors1 plan1)"

definition greedy_distribution :: "inventory \<Rightarrow> error + action list" where
  "greedy_distribution mismatch =
     (case split_mismatch mismatch [] [] of
        (recepients, donors) \<Rightarrow> distribute recepients donors [])"

section \<open>Plan execution\<close>

text \<open>
  The groups fetched by \<^verbatim>\<open>execute_plan\<close> are shared mutable objects: the list
  \<^verbatim>\<open>ri_groups\<close> is the store, and a reference to a group object is its position in that
  list. A move descriptor is (reference to the donor group, destination zone, count);
  \<^verbatim>\<open>modifications\<close> maps a group id to its descriptors.
\<close>

type_synonym move_descriptor = "nat \<times> string \<times> int"

record exec_state =
  st_groups :: "ri_group list"
  st_modifications :: "(string \<times> move_descriptor list) list"

definition select_donor_groups :: "ri_group list \<Rightarrow> string \<Rightarrow> string \<Rightarrow> nat list" where
  "select_donor_groups groups itype source_az =
     filter (\<lambda>g. instance_type (groups ! g) = itype \<and>
                  availability_zone (groups ! g) = source_az \<and>
                  instance_count (groups ! g) > 0)
       [0..<length groups]"

text \<open>The \<^verbatim>\<open>while\<close> loop of one action.\<close>

function move_loop :: "string \<Rightarrow> nat list \<Rightarrow> nat \<Rightarrow> int \<Rightarrow> exec_state \<Rightarrow> exec_state" where
  "move_loop dest_az donor_groups index cnt st =
     (if index < length donor_groups \<and> cnt > 0 then
        let donor_group = donor_groups ! index;
            g = st_groups st ! donor_group;
            move_count = min cnt (instance_count g);
            move_descriptor = (donor_group, dest_az, move_count);
            modifications1 =
              (case map_of (st_modifications st) (group_id g) of
                 None \<Rightarrow> AList.update (group_id g) ([] @ [move_descriptor])
                           (AList.update (group_id g) [] (st_modifications st))
               | Some descriptors \<Rightarrow>
                   AList.update (group_id g) (descriptors @ [move_descriptor])
                     (st_modifications st));
            groups1 = (st_groups st)
              [donor_group := g\<lparr>instance_count := instance_count g - move_count\<rparr>]
        in move_loop dest_az donor_groups (index + 1) (cnt - move_count)
             \<lparr>st_groups = groups1, st_modifications = modifications1\<rparr>
      else st)"
  by pat_completeness auto
termination
  by (relation "measure (\<lambda>(dest_az, donor_groups, index, cnt, st). length donor_groups - index)")
    auto

fun plan_loop :: "action list \<Rightarrow> exec_state \<Rightarrow> exec_state" where
  "plan_loop [] st = st"
| "plan_loop ((itype, source_az, dest_az, cnt) # plan) st =
     plan_loop plan
       (move_loop dest_az (select_donor_groups (st_groups st) itype source_az) 0 cnt st)"

definition build_modifications :: "ri_group list \<Rightarrow> action list \<Rightarrow> exec_state" where
  "build_modifications ri_groups plan =
     plan_loop plan \<lparr>st_groups = ri_groups, st_modifications = []\<rparr>"

text \<open>
  \<^verbatim>\<open>move_reserved_instances\<close>, first part: the target configurations of one batch, with
  both assertions; the remainder is read from the group of the last descriptor, in the
  store as it is after the whole plan has been worked through.
\<close>

fun configurations_loop ::
  "ri_group list \<Rightarrow> string \<Rightarrow> move_descriptor list \<Rightarrow> ri_configuration list
     \<Rightarrow> error + ri_configuration list" where
  "configurations_loop groups donor_group_id [] target_configurations =
     Inr target_configurations"
| "configurations_loop groups donor_group_id ((donor_group, dest_az, move_count) # descriptors)
       target_configurations =
     (if group_id (groups ! donor_group) \<noteq> donor_group_id then Inl AssertionError
      else configurations_loop groups donor_group_id descriptors
             (target_configurations @
                [\<lparr>cfg_availability_zone = dest_az, cfg_instance_count = move_count,
                  cfg_platform = ''EC2-VPC''\<rparr>]))"

definition target_configurations_of ::
  "ri_group list \<Rightarrow> move_descriptor list \<Rightarrow> error + (string \<times> ri_configuration list)" where
  "target_configurations_of groups move_descriptor_list =
     (if \<not> length move_descriptor_list > 0 then Inl AssertionError
      else
        let donor_group_id = group_id (groups ! fst (move_descriptor_list ! 0))
        in case configurations_loop groups donor_group_id move_descriptor_list [] of
             Inl e \<Rightarrow> Inl e
           | Inr target_configurations \<Rightarrow>
               let donor_group = groups ! fst (last move_descriptor_list)
               in Inr (donor_group_id,
                    if instance_count donor_group > 0
                    then target_configurations @
                      [\<lparr>cfg_availability_zone = availability_zone donor_group,
                        cfg_instance_count = instance_count donor_group,
                        cfg_platform = ''EC2-VPC''\<rparr>]
                    else target_configurations))"

definition move_reserved_instances ::
  "aws \<Rightarrow> ri_group list \<Rightarrow> move_descriptor list \<Rightarrow> bool \<Rightarrow> api_call list
     \<Rightarrow> error + (string \<times> api_call list)" where
  "move_reserved_instances conn groups move_descriptor_list optimize trace =
     (case target_configurations_of groups move_descriptor_list of
        Inl e \<Rightarrow> Inl e
      | Inr (donor_group_id, target_configurations) \<Rightarrow>
          let reserved_instance_ids = [donor_group_id]
          in if optimize then
               let client_token = time_time conn (length trace)
               in Inr (modify_reserved_instances conn client_token reserved_instance_ids
                         target_configurations,
                       trace @ [ModifyReservedInstances client_token reserved_instance_ids
                                  target_configurations])
             else Inr (''rimod-<DRY-RUN>'', trace))"

text \<open>The loop over \<^verbatim>\<open>modifications.values()\<close> and \<^verbatim>\<open>execute_plan\<close> itself.\<close>

fun submit_loop ::
  "aws \<Rightarrow> ri_group list \<Rightarrow> move_descriptor list list \<Rightarrow> bool \<Rightarrow> string list \<Rightarrow> api_call list
     \<Rightarrow> error + (string list \<times> api_call list)" where
  "submit_loop conn groups [] optimize modification_ids trace = Inr (modification_ids, trace)"
| "submit_loop conn groups (modification # rest) optimize modification_ids trace =
     (case move_reserved_instances conn groups modification optimize trace of
        Inl e \<Rightarrow> Inl e
      | Inr (modification_id, trace1) \<Rightarrow>
          submit_loop conn groups rest optimize (modification_ids @ [modification_id]) trace1)"

definition execute_plan ::
  "aws \<Rightarrow> credentials \<Rightarrow> string \<Rightarrow> action list \<Rightarrow> bool \<Rightarrow> api_call list
     \<Rightarrow> error + (string list \<times> api_call list)" where
  "execute_plan conn ri_account_credentials region plan optimize trace =
     (let ri_groups = get_all_reserved_instances conn ri_account_credentials region;
          st = build_modifications ri_groups plan
      in submit_loop conn (st_groups st) (map snd (st_modifications st)) optimize [] trace)"

section \<open>The whole run\<close>

fun publish_cw_metrics :: "string \<Rightarrow> (string \<times> int) list \<Rightarrow> api_call list \<Rightarrow> api_call list" where
  "publish_cw_metrics region [] trace = trace"
| "publish_cw_metrics region ((itype, surplus) # items) trace =
     publish_cw_metrics region items
       (trace @ [PutMetricData (''RI-usage-'' @ region) (itype @ ''-available-RIs'') surplus])"

record riptimize_result =
  res_i_inventory :: inventory
  res_i_inventory_by_account :: "(string \<times> inventory) list"
  res_ri_inventory :: inventory
  res_supported_ri_zones :: "string list"
  res_processing_modifications :: "ri_modification list"
  res_clean_mismatch :: inventory
  res_recommendations :: "inventory \<times> (string \<times> int) list"
  res_plan :: "action list"
  res_modification_ids :: "string list"

definition riptimize ::
  "aws \<Rightarrow> (string \<times> credentials) list \<Rightarrow> credentials \<Rightarrow> string \<Rightarrow> bool \<Rightarrow> bool
     \<Rightarrow> error + (riptimize_result \<times> api_call list)" where
  "riptimize conn all_accounts ri_account_credentials region optimize publish_metrics =
     (let i_inventory_by_account = get_i_inventory_by_account conn all_accounts region;
          i_inventory = aggregate_inventory i_inventory_by_account
      in case get_ri_inventory conn ri_account_credentials region of
           Inl e \<Rightarrow> Inl e
         | Inr (ri_inventory, supported_ri_zones, processing_modifications) \<Rightarrow>
             let modifications_inflight = (length processing_modifications \<noteq> 0);
                 mismatch = compute_ri_mistmatch ri_inventory i_inventory;
                 eliminated = eliminate_unsupported_zones mismatch supported_ri_zones;
                 clean_mismatch = fst eliminated;
                 eliminated_i_inventory = snd eliminated;
                 ri_surplus = compute_ri_surplus clean_mismatch;
                 ri_imbalance = filter (\<lambda>(itype, diff). diff \<noteq> 0) ri_surplus;
                 recommendations = (eliminated_i_inventory, ri_imbalance)
             in case greedy_distribution clean_mismatch of
                  Inl e \<Rightarrow> Inl e
                | Inr plan \<Rightarrow>
                    (case (if length plan > 0
                           then execute_plan conn ri_account_credentials region plan
                                  (optimize \<and> \<not> modifications_inflight) []
                           else Inr ([], [])) of
                       Inl e \<Rightarrow> Inl e
                     | Inr (modification_ids, trace) \<Rightarrow>
                         Inr (\<lparr>res_i_inventory = i_inventory,
                               res_i_inventory_by_account = i_inventory_by_account,
                               res_ri_inventory = ri_inventory,
                               res_supported_ri_zones = supported_ri_zones,
                               res_processing_modifications = processing_modifications,
                               res_clean_mismatch = clean_mismatch,
                               res_recommendations = recommendations,
                               res_plan = plan,
                               res_modification_ids = modification_ids\<rparr>,
                              if publish_metrics then publish_cw_metrics region ri_surplus trace
                              else trace)))"

section \<open>Notions used in the statements\<close>

text \<open>The inventory with every count negated.\<close>

definition invert_sign :: "inventory \<Rightarrow> inventory" where
  "invert_sign inventory = map (\<lambda>(itype_and_az, n). (itype_and_az, - n)) inventory"

text \<open>The sum of all counts an inventory list holds for one key.\<close>

definition total_of :: "itype_and_az \<Rightarrow> inventory \<Rightarrow> int" where
  "total_of k items = sum_list (map snd (filter (\<lambda>p. fst p = k) items))"

text \<open>What a plan takes out of a donor key and what it delivers into a recipient key.\<close>

definition moved_from :: "itype_and_az \<Rightarrow> action list \<Rightarrow> int" where
  "moved_from k plan =
     sum_list (map (\<lambda>(itype, source_az, dest_az, n). n)
       (filter (\<lambda>(itype, source_az, dest_az, n). (itype, source_az) = k) plan))"

definition moved_into :: "itype_and_az \<Rightarrow> action list \<Rightarrow> int" where
  "moved_into k plan =
     sum_list (map (\<lambda>(itype, source_az, dest_az, n). n)
       (filter (\<lambda>(itype, source_az, dest_az, n). (itype, dest_az) = k) plan))"

text \<open>
  What the descriptors of one batch, and of all batches, take out of the group object
  with reference \<open>g\<close>.
\<close>

definition descriptor_total :: "nat \<Rightarrow> move_descriptor list \<Rightarrow> int" where
  "descriptor_total g descriptors =
     sum_list (map (\<lambda>(donor_group, dest_az, move_count). move_count)
       (filter (\<lambda>(donor_group, dest_az, move_count). donor_group = g) descriptors))"

definition moved_out :: "exec_state \<Rightarrow> nat \<Rightarrow> int" where
  "moved_out st g =
     sum_list (map (\<lambda>(gid, descriptors). descriptor_total g descriptors) (st_modifications st))"

text \<open>One pass through the body of the \<^verbatim>\<open>while\<close> loop, for the donor group \<open>donor_group\<close>.\<close>

definition move_step :: "string \<Rightarrow> nat \<Rightarrow> int \<Rightarrow> exec_state \<Rightarrow> exec_state" where
  "move_step dest_az donor_group cnt st =
     (let g = st_groups st ! donor_group;
          move_count = min cnt (instance_count g)
      in \<lparr>st_groups = (st_groups st)
             [donor_group := g\<lparr>instance_count := instance_count g - move_count\<rparr>],
           st_modifications =
             AList.update (group_id g)
               (dict_get (st_modifications st) (group_id g) [] @
                  [(donor_group, dest_az, move_count)])
               (st_modifications st)\<rparr>)"

text \<open>
  The invariant of plan execution, relative to the groups \<open>G\<close> as they were fetched: only
  the counts change; what a group has lost is what the descriptors took out of it; a
  count never falls below 0 (nor below where it started); the batches have distinct
  keys, none is empty, and every descriptor refers to a group with the batch's id and
  moves a positive count.
\<close>

definition exec_inv :: "ri_group list \<Rightarrow> exec_state \<Rightarrow> bool" where
  "exec_inv G st \<longleftrightarrow>
     length (st_groups st) = length G \<and>
     (\<forall>i < length G.
        group_id (st_groups st ! i) = group_id (G ! i) \<and>
        instance_type (st_groups st ! i) = instance_type (G ! i) \<and>
        availability_zone (st_groups st ! i) = availability_zone (G ! i) \<and>
        instance_count (st_groups st ! i) + moved_out st i = instance_count (G ! i) \<and>
        min 0 (instance_count (G ! i)) \<le> instance_count (st_groups st ! i)) \<and>
     distinct (map fst (st_modifications st)) \<and>
     (\<forall>(gid, descriptors) \<in> set (st_modifications st).
        descriptors \<noteq> [] \<and>
        (\<forall>(r, dest_az, c) \<in> set descriptors. r < length G \<and> group_id (G ! r) = gid \<and> 0 < c))"

text \<open>
  The configurations \<^verbatim>\<open>move_reserved_instances\<close> builds from the descriptors of a batch,
  and the remainder configuration it appends for a group that has capacity left.
\<close>

definition move_configurations :: "move_descriptor list \<Rightarrow> ri_configuration list" where
  "move_configurations descriptors =
     map (\<lambda>(donor_group, dest_az, move_count).
            \<lparr>cfg_availability_zone = dest_az, cfg_instance_count = move_count,
             cfg_platform = ''EC2-VPC''\<rparr>) descriptors"

definition remainder_configuration :: "ri_group \<Rightarrow> ri_configuration list" where
  "remainder_configuration g =
     (if instance_count g > 0
      then [\<lparr>cfg_availability_zone = availability_zone g, cfg_instance_count = instance_count g,
             cfg_platform = ''EC2-VPC''\<rparr>]
      else [])"

text \<open>The sum of the counts of a batch, and of all batches.\<close>

definition batch_total :: "move_descriptor list \<Rightarrow> int" where
  "batch_total descriptors =
     sum_list (map (\<lambda>(donor_group, dest_az, move_count). move_count) descriptors)"

definition total_moved :: "exec_state \<Rightarrow> int" where
  "total_moved st =
     sum_list (map (\<lambda>(gid, descriptors). batch_total descriptors) (st_modifications st))"

text \<open>The capacity the groups matching (instance type, source zone) have left.\<close>

definition available :: "ri_group list \<Rightarrow> string \<Rightarrow> string \<Rightarrow> int" where
  "available groups itype source_az =
     sum_list (map (\<lambda>g. instance_count (groups ! g)) (select_donor_groups groups itype source_az))"

text \<open>Whether a recorded request is a modification of reserved instances.\<close>

fun is_modification :: "api_call \<Rightarrow> bool" where
  "is_modification (ModifyReservedInstances client_token ids configurations) = True"
| "is_modification (PutMetricData namespace name v) = False"

text \<open>
  Example data: two groups of m4.large in us-east-1a with 5 and 2 instances, a plan of
  two actions that both draw from the first group, a plan whose single action asks for
  more than both groups hold, and a connection that answers with these groups.
\<close>

definition example_groups :: "ri_group list" where
  "example_groups =
     [\<lparr>group_id = ''ri-1'', instance_type = ''m4.large'', availability_zone = ''us-east-1a'',
       instance_count = 5\<rparr>,
      \<lparr>group_id = ''ri-2'', instance_type = ''m4.large'', availability_zone = ''us-east-1a'',
       instance_count = 2\<rparr>]"

definition example_plan :: "action list" where
  "example_plan =
     [(''m4.large'', ''us-east-1a'', ''us-east-1b'', 2),
      (''m4.large'', ''us-east-1a'', ''us-east-1c'', 1)]"

definition example_excess_plan :: "action list" where
  "example_excess_plan = [(''m4.large'', ''us-east-1a'', ''us-east-1b'', 10)]"

definition example_conn :: aws where
  "example_conn =
     \<lparr>get_only_instances = (\<lambda>credentials region. []),
      get_all_zones = (\<lambda>credentials region. []),
      describe_reserved_instances_modifications = (\<lambda>credentials region. []),
      get_all_reserved_instances = (\<lambda>credentials region. example_groups),
      modify_reserved_instances = (\<lambda>client_token ids configurations. ''rimod-1''),
      time_time = (\<lambda>n. ''0.0'')\<rparr>"

text \<open>
  Example data for a whole run: one account with an instance in us-east-1a and two in
  us-east-1b, the example groups as reservations, both zones available, and one earlier
  modification still processing.
\<close>

definition example_inflight_conn :: aws where
  "example_inflight_conn =
     \<lparr>get_only_instances = (\<lambda>credentials region.
        [\<lparr>i_instance_type = ''m4.large'', placement = ''us-east-1a''\<rparr>,
         \<lparr>i_instance_type = ''m4.large'', placement = ''us-east-1b''\<rparr>,
         \<lparr>i_instance_type = ''m4.large'', placement = ''us-east-1b''\<rparr>]),
      get_all_zones = (\<lambda>credentials region.
        [\<lparr>zone_name = ''us-east-1a'', zone_state = ''available''\<rparr>,
         \<lparr>zone_name = ''us-east-1b'', zone_state = ''available''\<rparr>]),
      describe_reserved_instances_modifications = (\<lambda>credentials region.
        [\<lparr>mod_modification_id = ''rimod-0'', mod_status = ''processing''\<rparr>]),
      get_all_reserved_instances = (\<lambda>credentials region. example_groups),
      modify_reserved_instances = (\<lambda>client_token ids configurations. ''rimod-1''),
      time_time = (\<lambda>n. ''0.0'')\<rparr>"


declare move_loop.simps [simp del]

section \<open>Proofs\<close>

subsection \<open>Association lists\<close>

lemma map_of_filter_distinct:
  "distinct (map fst xs) \<Longrightarrow>
   map_of (filter (\<lambda>(k, v). P k v) xs) k =
     (case map_of xs k of None \<Rightarrow> None | Some v \<Rightarrow> if P k v then Some v else None)"
proof (induction xs)
  case Nil
  show ?case by simp
next
  case (Cons x xs)
  obtain a b where x: "x = (a, b)" by (cases x)
  have "a \<notin> fst ` set xs" using Cons.prems x by simp
  then have none: "map_of xs a = None" by (simp add: map_of_eq_None_iff)
  have none': "map_of (filter (\<lambda>(k, v). P k v) xs) a = None"
    using \<open>a \<notin> fst ` set xs\<close> by (auto simp: map_of_eq_None_iff)
  show ?case
    using Cons x none none' by (auto split: option.splits)
qed

lemma distinct_filter_keys:
  "distinct (map fst xs) \<Longrightarrow> distinct (map fst (filter P xs))"
  by (simp add: distinct_map_filter)

subsection \<open>Mismatch\<close>

lemma distinct_subtract_items:
  "distinct (map fst m) \<Longrightarrow> distinct (map fst (subtract_items items m))"
  by (induction items m rule: subtract_items.induct)
    (simp_all add: distinct_update split: option.splits)

lemma map_of_subtract_items:
  "distinct (map fst items) \<Longrightarrow>
   map_of (subtract_items items m) k =
     (case map_of items k of None \<Rightarrow> map_of m k
      | Some c \<Rightarrow> Some (dict_get m k 0 - c))"
proof (induction items m rule: subtract_items.induct)
  case (1 mismatch)
  show ?case by simp
next
  case (2 key c items mismatch)
  have notin: "map_of items key = None"
    using "2.prems" by (simp add: map_of_eq_None_iff)
  show ?case
  proof (cases "k = key")
    case True
    with notin show ?thesis
      using "2.IH" "2.prems"
      by (simp add: dict_get_def update_conv' split: option.splits)
  next
    case False
    then show ?thesis
      using "2.IH" "2.prems"
      by (simp add: dict_get_def update_conv' split: option.splits)
  qed
qed

text \<open>
  C3. For inventories \<open>reserved\<close> and \<open>demand\<close> (dicts, so their keys are distinct), the
  mismatch maps every key to \<open>reserved.get(key, 0) - demand.get(key, 0)\<close> when that
  difference is not zero and has no entry for the key when it is zero; so a key that
  only \<open>demand\<close> holds, with a positive count \<open>c\<close>, is mapped to \<open>- c\<close>. No entry of the result
  has the value 0, and the result is a dict again.
\<close>

theorem compute_ri_mistmatch_diff:
  assumes "distinct (map fst reserved)" and "distinct (map fst demand)"
  shows "(\<forall>k. map_of (compute_ri_mistmatch reserved demand) k =
              (if dict_get reserved k 0 - dict_get demand k 0 = 0 then None
               else Some (dict_get reserved k 0 - dict_get demand k 0))) \<and>
         (\<forall>k c. \<not> dict_in k reserved \<and> map_of demand k = Some c \<and> 0 < c \<longrightarrow>
              map_of (compute_ri_mistmatch reserved demand) k = Some (- c)) \<and>
         0 \<notin> snd ` set (compute_ri_mistmatch reserved demand) \<and>
         distinct (map fst (compute_ri_mistmatch reserved demand))"
proof -
  let ?m = "subtract_items demand reserved"
  have dm: "distinct (map fst ?m)"
    using assms(1) by (rule distinct_subtract_items)
  have main: "map_of (compute_ri_mistmatch reserved demand) k =
           (if dict_get reserved k 0 - dict_get demand k 0 = 0 then None
            else Some (dict_get reserved k 0 - dict_get demand k 0))" for k
    unfolding compute_ri_mistmatch_def Let_def
    by (simp add: map_of_filter_distinct [OF dm] map_of_subtract_items [OF assms(2)]
        dict_get_def split: option.splits)
  have only_demand: "map_of (compute_ri_mistmatch reserved demand) k = Some (- c)"
    if "\<not> dict_in k reserved \<and> map_of demand k = Some c \<and> 0 < c" for k c
    using that by (simp add: main dict_in_def dict_get_def)
  have nonzero: "0 \<notin> snd ` set (compute_ri_mistmatch reserved demand)"
    unfolding compute_ri_mistmatch_def Let_def by auto
  have dist: "distinct (map fst (compute_ri_mistmatch reserved demand))"
    unfolding compute_ri_mistmatch_def Let_def using dm by (rule distinct_filter_keys)
  from main only_demand nonzero dist show ?thesis by blast
qed

theorem compute_ri_mistmatch_diff_witness:
  "map_of (compute_ri_mistmatch [((''m4.large'', ''us-east-1a''), 10), ((''c3.large'', ''us-east-1a''), 2)]
       [((''m4.large'', ''us-east-1a''), 4), ((''m4.large'', ''us-east-1b''), 6),
        ((''c3.large'', ''us-east-1a''), 2)]) (''m4.large'', ''us-east-1b'') = Some (- 6) \<and>
   map_of (compute_ri_mistmatch [((''m4.large'', ''us-east-1a''), 10), ((''c3.large'', ''us-east-1a''), 2)]
       [((''m4.large'', ''us-east-1a''), 4), ((''m4.large'', ''us-east-1b''), 6),
        ((''c3.large'', ''us-east-1a''), 2)]) (''c3.large'', ''us-east-1a'') = None"
  using compute_ri_mistmatch_diff [of
      "[((''m4.large'', ''us-east-1a''), 10), ((''c3.large'', ''us-east-1a''), 2)]"
      "[((''m4.large'', ''us-east-1a''), 4), ((''m4.large'', ''us-east-1b''), 6),
        ((''c3.large'', ''us-east-1a''), 2)]"]
  by (simp add: dict_get_def)

subsection \<open>Zones\<close>

lemma map_of_filter_key:
  "map_of (filter (\<lambda>(k, v). P k) xs) k = (if P k then map_of xs k else None)"
  by (induction xs) (auto split: if_splits)

lemma map_of_invert_sign: "map_of (invert_sign xs) k = map_option uminus (map_of xs k)"
  by (induction xs) (auto simp: invert_sign_def)

lemma invert_sign_twice: "invert_sign (invert_sign xs) = xs"
  by (induction xs) (auto simp: invert_sign_def)

lemma mset_partition_filter: "mset (filter P xs) + mset (filter (\<lambda>x. \<not> P x) xs) = mset xs"
  by (induction xs) (auto split: if_splits)

text \<open>
  C6. For every mismatch \<open>m\<close> and list of supported zones \<open>S\<close>, the clean mismatch together
  with the eliminated inventory, its signs inverted back, holds exactly the entries of
  \<open>m\<close>, each as often as \<open>m\<close> does; looking a key up in \<open>m\<close> gives what the clean mismatch
  holds for it and otherwise what the inverted eliminated inventory holds; no key is in
  both outputs; and the keys of the two outputs together are the keys of \<open>m\<close>.
\<close>

theorem eliminate_unsupported_zones_lossless:
  "mset (fst (eliminate_unsupported_zones m S) @
         invert_sign (snd (eliminate_unsupported_zones m S))) = mset m \<and>
   (\<forall>k. map_of m k =
      (case map_of (fst (eliminate_unsupported_zones m S)) k of
         Some d \<Rightarrow> Some d
       | None \<Rightarrow> map_of (invert_sign (snd (eliminate_unsupported_zones m S))) k)) \<and>
   fst ` set (fst (eliminate_unsupported_zones m S)) \<inter>
     fst ` set (snd (eliminate_unsupported_zones m S)) = {} \<and>
   fst ` set (fst (eliminate_unsupported_zones m S)) \<union>
     fst ` set (snd (eliminate_unsupported_zones m S)) = fst ` set m"
proof -
  let ?P = "\<lambda>(itype_and_az, diff :: int). snd (itype_and_az :: itype_and_az) \<in> set S"
  let ?Q = "\<lambda>(itype_and_az, diff :: int). snd (itype_and_az :: itype_and_az) \<notin> set S"
  have Q: "?Q = (\<lambda>x. \<not> ?P x)" by auto
  have clean: "fst (eliminate_unsupported_zones m S) = filter ?P m"
    by (simp add: eliminate_unsupported_zones_def)
  have elim: "invert_sign (snd (eliminate_unsupported_zones m S)) = filter ?Q m"
  proof -
    have "snd (eliminate_unsupported_zones m S) = invert_sign (filter ?Q m)"
      by (simp add: eliminate_unsupported_zones_def invert_sign_def)
    then show ?thesis by (simp add: invert_sign_twice)
  qed
  have keys: "fst ` set (snd (eliminate_unsupported_zones m S)) = fst ` set (filter ?Q m)"
    by (force simp: eliminate_unsupported_zones_def)
  have 1: "mset (fst (eliminate_unsupported_zones m S) @
         invert_sign (snd (eliminate_unsupported_zones m S))) = mset m"
    unfolding clean elim Q by (simp add: mset_partition_filter del: mset_filter)
  have 2: "map_of m k =
      (case map_of (fst (eliminate_unsupported_zones m S)) k of
         Some d \<Rightarrow> Some d
       | None \<Rightarrow> map_of (invert_sign (snd (eliminate_unsupported_zones m S))) k)" for k
    unfolding clean elim by (simp add: map_of_filter_key split: option.splits)
  have 3: "fst ` set (fst (eliminate_unsupported_zones m S)) \<inter>
     fst ` set (snd (eliminate_unsupported_zones m S)) = {}"
    unfolding clean keys by auto
  have 4: "fst ` set (fst (eliminate_unsupported_zones m S)) \<union>
     fst ` set (snd (eliminate_unsupported_zones m S)) = fst ` set m"
    unfolding clean keys by force
  from 1 2 3 4 show ?thesis by blast
qed

text \<open>
  C8, as stated, fails: a surplus in an unsupported zone is eliminated as a negative
  count.
\<close>

theorem eliminated_not_positive_counterexample:
  "snd (eliminate_unsupported_zones [((''m4.large'', ''us-east-1f''), 5)]
          [''us-east-1a'', ''us-east-1b'']) = [((''m4.large'', ''us-east-1f''), - 5)] \<and>
   \<not> (\<forall>(k, v) \<in> set (snd (eliminate_unsupported_zones [((''m4.large'', ''us-east-1f''), 5)]
          [''us-east-1a'', ''us-east-1b''])). 0 < v)"
  by (simp add: eliminate_unsupported_zones_def)

lemma map_of_compute_ri_mistmatch:
  assumes "distinct (map fst reserved)" and "distinct (map fst demand)"
  shows "map_of (compute_ri_mistmatch reserved demand) k =
     (if dict_get reserved k 0 - dict_get demand k 0 = 0 then None
      else Some (dict_get reserved k 0 - dict_get demand k 0))"
proof -
  have dm: "distinct (map fst (subtract_items demand reserved))"
    using assms(1) by (rule distinct_subtract_items)
  show ?thesis
    unfolding compute_ri_mistmatch_def Let_def
    by (simp add: map_of_filter_distinct [OF dm] map_of_subtract_items [OF assms(2)]
        dict_get_def split: option.splits)
qed

lemma eliminated_of_computed_mismatch:
  assumes dr: "distinct (map fst reserved)" and dd: "distinct (map fst demand)"
    and supported: "\<forall>(k, n) \<in> set reserved. snd k \<in> set S"
    and nonneg: "\<forall>(k, n) \<in> set demand. 0 \<le> n"
    and mem: "(k, v) \<in> set (snd (eliminate_unsupported_zones
        (compute_ri_mistmatch reserved demand) S))"
  shows "0 < v \<and> map_of demand k = Some v"
proof -
  let ?m = "compute_ri_mistmatch reserved demand"
  have zone: "snd k \<notin> set S" and entry: "(k, - v) \<in> set ?m"
    using mem by (auto simp: eliminate_unsupported_zones_def)
  have "distinct (map fst ?m)"
    unfolding compute_ri_mistmatch_def Let_def
    using dr by (intro distinct_filter_keys distinct_subtract_items)
  then have look: "map_of ?m k = Some (- v)"
    using entry by simp
  have "k \<notin> fst ` set reserved"
    using supported zone by force
  then have "map_of reserved k = None" by (simp add: map_of_eq_None_iff)
  then have r0: "dict_get reserved k 0 = 0" by (simp add: dict_get_def)
  from look have d: "dict_get demand k 0 = v" and nz: "v \<noteq> 0"
    by (simp_all add: map_of_compute_ri_mistmatch [OF dr dd] r0 split: if_splits)
  from d nz have some: "map_of demand k = Some v"
    by (cases "map_of demand k") (simp_all add: dict_get_def)
  then have "(k, v) \<in> set demand" by (rule map_of_SomeD)
  then have "0 \<le> v" using nonneg by force
  with nz some show ?thesis by simp
qed

text \<open>
  C8, amended. For every mismatch \<open>m\<close> and list of supported zones \<open>S\<close>, every entry of
  the eliminated inventory lies in a zone outside \<open>S\<close> and is the entry of \<open>m\<close> for the same
  key with its sign inverted; when every entry of \<open>m\<close> in a zone outside \<open>S\<close> is a deficit
  (negative), every entry of the eliminated inventory is a positive count. That is the
  case for the mismatch computed from two inventories (dicts) in which every reserved
  key lies in a supported zone and no demand count is negative: then every entry of the
  eliminated inventory is positive and is the demand count of its key.
\<close>

theorem eliminated_inverts_deficits:
  "(\<forall>(k, v) \<in> set (snd (eliminate_unsupported_zones m S)).
        snd k \<notin> set S \<and> (k, - v) \<in> set m) \<and>
   ((\<forall>(k, d) \<in> set m. snd k \<notin> set S \<longrightarrow> d < 0) \<longrightarrow>
    (\<forall>(k, v) \<in> set (snd (eliminate_unsupported_zones m S)). 0 < v)) \<and>
   (distinct (map fst reserved) \<and> distinct (map fst demand) \<and>
    (\<forall>(k, n) \<in> set reserved. snd k \<in> set S) \<and>
    (\<forall>(k, n) \<in> set demand. 0 \<le> n) \<longrightarrow>
    (\<forall>(k, v) \<in> set (snd (eliminate_unsupported_zones
         (compute_ri_mistmatch reserved demand) S)).
       0 < v \<and> map_of demand k = Some v))"
proof -
  have 1: "\<forall>(k, v) \<in> set (snd (eliminate_unsupported_zones m S)).
        snd k \<notin> set S \<and> (k, - v) \<in> set m"
    by (auto simp: eliminate_unsupported_zones_def)
  have 2: "(\<forall>(k, d) \<in> set m. snd k \<notin> set S \<longrightarrow> d < 0) \<longrightarrow>
    (\<forall>(k, v) \<in> set (snd (eliminate_unsupported_zones m S)). 0 < v)"
    by (auto simp: eliminate_unsupported_zones_def)
  have 3: "distinct (map fst reserved) \<and> distinct (map fst demand) \<and>
    (\<forall>(k, n) \<in> set reserved. snd k \<in> set S) \<and>
    (\<forall>(k, n) \<in> set demand. 0 \<le> n) \<longrightarrow>
    (\<forall>(k, v) \<in> set (snd (eliminate_unsupported_zones
         (compute_ri_mistmatch reserved demand) S)).
       0 < v \<and> map_of demand k = Some v)"
    using eliminated_of_computed_mismatch [of reserved demand S] by blast
  from 1 2 3 show ?thesis by blast
qed

theorem eliminated_inverts_deficits_witness:
  "((''m4.large'', ''us-east-1f''), 2) \<in> set (snd (eliminate_unsupported_zones
       [((''m4.large'', ''us-east-1a''), 3), ((''m4.large'', ''us-east-1f''), - 2)]
       [''us-east-1a''])) \<and>
   ((''m4.large'', ''us-east-1f''), - 2) \<in> set
       [((''m4.large'', ''us-east-1a''), 3), ((''m4.large'', ''us-east-1f''), - (2::int))] \<and>
   (0::int) < 2 \<and>
   distinct (map fst [((''m4.large'', ''us-east-1a''), 10 :: int)]) \<and>
   distinct (map fst [((''m4.large'', ''us-east-1a''), 4 :: int),
       ((''m4.large'', ''us-east-1f''), 3)]) \<and>
   ((''m4.large'', ''us-east-1f''), 3) \<in> set (snd (eliminate_unsupported_zones
       (compute_ri_mistmatch [((''m4.large'', ''us-east-1a''), 10)]
          [((''m4.large'', ''us-east-1a''), 4), ((''m4.large'', ''us-east-1f''), 3)])
       [''us-east-1a''])) \<and>
   map_of [((''m4.large'', ''us-east-1a''), 4 :: int), ((''m4.large'', ''us-east-1f''), 3)]
       (''m4.large'', ''us-east-1f'') = Some 3"
proof -
  let ?m = "[((''m4.large'', ''us-east-1a''), 3), ((''m4.large'', ''us-east-1f''), - (2::int))]"
  let ?R = "[((''m4.large'', ''us-east-1a''), 10 :: int)]"
  let ?D = "[((''m4.large'', ''us-east-1a''), 4 :: int), ((''m4.large'', ''us-east-1f''), 3)]"
  let ?S = "[''us-east-1a'']"
  note t = eliminated_inverts_deficits [of ?m ?S ?R ?D]
  have mem: "((''m4.large'', ''us-east-1f''), 2) \<in> set (snd (eliminate_unsupported_zones ?m ?S))"
    by (simp add: eliminate_unsupported_zones_def)
  have deficits: "\<forall>(k, d) \<in> set ?m. snd k \<notin> set ?S \<longrightarrow> d < 0" by simp
  from t [THEN conjunct1] mem
  have a: "((''m4.large'', ''us-east-1f''), - 2) \<in> set ?m" by fast
  from t [THEN conjunct2, THEN conjunct1] deficits mem
  have b: "(0::int) < 2" by fast
  have hyps: "distinct (map fst ?R) \<and> distinct (map fst ?D) \<and>
      (\<forall>(k, n) \<in> set ?R. snd k \<in> set ?S) \<and> (\<forall>(k, n) \<in> set ?D. 0 \<le> n)"
    by simp
  have mem3: "((''m4.large'', ''us-east-1f''), 3) \<in>
      set (snd (eliminate_unsupported_zones (compute_ri_mistmatch ?R ?D) ?S))"
    by (simp add: eliminate_unsupported_zones_def compute_ri_mistmatch_def)
  from t [THEN conjunct2, THEN conjunct2] hyps mem3
  have c: "map_of ?D (''m4.large'', ''us-east-1f'') = Some 3" by fast
  from mem a b hyps mem3 c show ?thesis by blast
qed

subsection \<open>Scenario\<close>

text \<open>
  C7. With 10 reserved m4.large in us-east-1a and a demand of 4 in us-east-1a and 6 in
  us-east-1b, the mismatch is 6 for us-east-1a and -6 for us-east-1b; both zones being
  supported, nothing is eliminated, and the greedy planner returns the single action
  (m4.large, us-east-1a, us-east-1b, 6).
\<close>

theorem scenario_m4_large:
  "compute_ri_mistmatch [((''m4.large'', ''us-east-1a''), 10)]
       [((''m4.large'', ''us-east-1a''), 4), ((''m4.large'', ''us-east-1b''), 6)] =
     [((''m4.large'', ''us-east-1a''), 6), ((''m4.large'', ''us-east-1b''), - 6)] \<and>
   eliminate_unsupported_zones
       [((''m4.large'', ''us-east-1a''), 6), ((''m4.large'', ''us-east-1b''), - 6)]
       [''us-east-1a'', ''us-east-1b''] =
     ([((''m4.large'', ''us-east-1a''), 6), ((''m4.large'', ''us-east-1b''), - 6)], []) \<and>
   greedy_distribution
       [((''m4.large'', ''us-east-1a''), 6), ((''m4.large'', ''us-east-1b''), - 6)] =
     Inr [(''m4.large'', ''us-east-1a'', ''us-east-1b'', 6)]"
  by (simp add: compute_ri_mistmatch_def eliminate_unsupported_zones_def
      greedy_distribution_def dict_del_def dict_isub_def dict_in_def)

subsection \<open>Aggregation\<close>

lemma total_of_Cons:
  "total_of k ((a, c) # items) = (if a = k then c else 0) + total_of k items"
  by (simp add: total_of_def)

lemma total_of_notin: "k \<notin> fst ` set items \<Longrightarrow> total_of k items = 0"
  by (induction items) (auto simp: total_of_def)

lemma map_of_add_items:
  "map_of (add_items items acc) k =
     (if map_of items k = None \<and> map_of acc k = None then None
      else Some (total_of k items + dict_get acc k 0))"
proof (induction items arbitrary: acc)
  case Nil
  show ?case by (simp add: total_of_def dict_get_def split: option.splits)
next
  case (Cons x items)
  obtain a c where x: "x = (a, c)" by (cases x)
  define acc1 where "acc1 =
    (case map_of acc a of Some n \<Rightarrow> AList.update a (n + c) acc
     | None \<Rightarrow> AList.update a c acc)"
  have step: "add_items (x # items) acc = add_items items acc1"
    by (simp add: x acc1_def)
  have m: "map_of acc1 = (map_of acc)(a \<mapsto> dict_get acc a 0 + c)"
    by (simp add: acc1_def update_conv' dict_get_def split: option.splits)
  have "map_of (add_items (x # items) acc) k =
     (if map_of items k = None \<and> map_of acc1 k = None then None
      else Some (total_of k items + dict_get acc1 k 0))"
    unfolding step by (rule Cons.IH)
  also have "\<dots> =
     (if map_of (x # items) k = None \<and> map_of acc k = None then None
      else Some (total_of k (x # items) + dict_get acc k 0))"
    by (cases "k = a") (simp_all add: m x total_of_Cons dict_get_def)
  finally show ?case .
qed

lemma distinct_add_items:
  "distinct (map fst acc) \<Longrightarrow> distinct (map fst (add_items items acc))"
  by (induction items acc rule: add_items.induct)
    (simp_all add: distinct_update split: option.splits)

lemma total_of_None: "map_of items k = None \<Longrightarrow> total_of k items = 0"
  by (rule total_of_notin) (simp add: map_of_eq_None_iff)

lemma map_of_aggregate_two:
  "map_of (aggregate_inventory [(a, A), (b, B)]) k =
     (if map_of A k = None \<and> map_of B k = None then None
      else Some (total_of k A + total_of k B))"
  by (auto simp: aggregate_inventory_def map_of_add_items dict_get_def total_of_None)

text \<open>
  C9. For all inventories \<open>A\<close> and \<open>B\<close>, aggregating the accounts in the order \<open>A\<close>, \<open>B\<close>
  and in the order \<open>B\<close>, \<open>A\<close> gives dicts with the same value under every key (both with
  distinct keys), and aggregating no account gives the empty inventory.
\<close>

theorem aggregate_inventory_order_independent:
  "map_of (aggregate_inventory [(a, A), (b, B)]) =
     map_of (aggregate_inventory [(b, B), (a, A)]) \<and>
   distinct (map fst (aggregate_inventory [(a, A), (b, B)])) \<and>
   distinct (map fst (aggregate_inventory [(b, B), (a, A)])) \<and>
   aggregate_inventory [] = []"
proof -
  have "map_of (aggregate_inventory [(a, A), (b, B)]) k =
     map_of (aggregate_inventory [(b, B), (a, A)]) k" for k
    by (auto simp: map_of_aggregate_two)
  then have "map_of (aggregate_inventory [(a, A), (b, B)]) =
     map_of (aggregate_inventory [(b, B), (a, A)])" by (rule ext)
  moreover have "distinct (map fst (aggregate_inventory [(x, X), (y, Y)]))" for x y X Y
    by (simp add: aggregate_inventory_def distinct_add_items)
  moreover have "aggregate_inventory [] = []"
    by (simp add: aggregate_inventory_def)
  ultimately show ?thesis by blast
qed

subsection \<open>The greedy planner\<close>

lemma moved_from_Nil: "moved_from k [] = 0"
  by (simp add: moved_from_def)

lemma moved_into_Nil: "moved_into k [] = 0"
  by (simp add: moved_into_def)

lemma moved_from_snoc:
  "moved_from k (plan @ [(t, s, d, n)]) = moved_from k plan + (if (t, s) = k then n else 0)"
  by (simp add: moved_from_def)

lemma moved_into_snoc:
  "moved_into k (plan @ [(t, s, d, n)]) = moved_into k plan + (if (t, d) = k then n else 0)"
  by (simp add: moved_into_def)

lemma update_fresh: "k \<notin> fst ` set xs \<Longrightarrow> AList.update k v xs = xs @ [(k, v)]"
  by (induction xs) auto

lemma split_mismatch_filter:
  "distinct (map fst items) \<Longrightarrow> fst ` set items \<inter> fst ` set rs = {} \<Longrightarrow>
   fst ` set items \<inter> fst ` set ds = {} \<Longrightarrow>
   split_mismatch items rs ds =
     (rs @ filter (\<lambda>(k, d). d < 0) items, ds @ filter (\<lambda>(k, d). 0 < d) items)"
proof (induction items rs ds rule: split_mismatch.induct)
  case (1 recepients donors)
  show ?case by simp
next
  case (2 key diff items recepients donors)
  have fresh_r: "key \<notin> fst ` set recepients" and fresh_d: "key \<notin> fst ` set donors"
    using "2.prems" by auto
  have rest: "distinct (map fst items)" "key \<notin> fst ` set items"
    "fst ` set items \<inter> fst ` set recepients = {}"
    "fst ` set items \<inter> fst ` set donors = {}"
    using "2.prems" by auto
  consider (neg) "diff < 0" | (pos) "\<not> diff < 0" "0 < diff" | (zero) "\<not> diff < 0" "\<not> 0 < diff"
    by blast
  then show ?case
  proof cases
    case neg
    have "fst ` set items \<inter> fst ` set (AList.update key diff recepients) = {}"
      using rest by (auto simp: dom_update)
    with neg rest show ?thesis
      using "2.IH"(1) by (simp add: update_fresh [OF fresh_r])
  next
    case pos
    have "fst ` set items \<inter> fst ` set (AList.update key diff donors) = {}"
      using rest by (auto simp: dom_update)
    with pos rest show ?thesis
      using "2.IH"(2) by (simp add: update_fresh [OF fresh_d])
  next
    case zero
    with rest show ?thesis
      using "2.IH"(3) by simp
  qed
qed

lemma greedy_distribution_filter:
  "distinct (map fst mismatch) \<Longrightarrow>
   greedy_distribution mismatch =
     distribute (filter (\<lambda>(k, d). d < 0) mismatch) (filter (\<lambda>(k, d). 0 < d) mismatch) []"
  by (simp add: greedy_distribution_def split_mismatch_filter)

lemma compensate_step:
  assumes "move = min \<bar>deficit\<bar> cnt"
    and "(if cnt = move then dict_del (rt, daz) ds else dict_isub (rt, daz) move ds) = Inr ds1"
  shows "compensate rt raz (((rt, daz), cnt) # items) deficit ds plan =
     (if 0 \<le> deficit + move then Inr (ds1, plan @ [(rt, daz, raz, move)])
      else compensate rt raz items (deficit + move) ds1 (plan @ [(rt, daz, raz, move)]))"
  using assms by (auto simp: Let_def min_def split: if_splits)

lemma compensate_correct:
  assumes "distinct (map fst items)"
    and "\<And>k c. (k, c) \<in> set items \<Longrightarrow> map_of ds k = Some c"
    and "\<And>k c. map_of ds k = Some c \<Longrightarrow> 0 < c"
    and "distinct (map fst ds)"
    and "deficit < 0"
  shows "\<exists>ds' plan'. compensate rt raz items deficit ds plan = Inr (ds', plan') \<and>
      distinct (map fst ds') \<and> (\<forall>k c. map_of ds' k = Some c \<longrightarrow> 0 < c) \<and>
      (\<forall>k. moved_from k plan' + dict_get ds' k 0 = moved_from k plan + dict_get ds k 0) \<and>
      (\<forall>k. moved_into k plan' \<le>
            moved_into k plan + (if k = (rt, raz) then - deficit else 0)) \<and>
      (\<forall>a \<in> set plan'. a \<in> set plan \<or> 0 < snd (snd (snd a)))"
  using assms
proof (induction items arbitrary: deficit ds plan)
  case Nil
  show ?case using Nil.prems(3,4,5) by auto
next
  case (Cons x items)
  obtain dt daz cnt where x: "x = ((dt, daz), cnt)" by (cases x) auto
  have look: "map_of ds (dt, daz) = Some cnt"
    using Cons.prems(2) [of "(dt, daz)" cnt] by (simp add: x)
  have pos: "0 < cnt" using Cons.prems(3) look by blast
  have dist: "distinct (map fst items)" and fresh: "(dt, daz) \<notin> fst ` set items"
    using Cons.prems(1) by (simp_all add: x)
  have snap: "map_of ds k = Some c" if "(k, c) \<in> set items" for k c
    using Cons.prems(2) that by simp
  show ?case
  proof (cases "dt = rt")
    case False
    then have "compensate rt raz (x # items) deficit ds plan =
        compensate rt raz items deficit ds plan"
      by (simp add: x)
    then show ?thesis
      using Cons.IH [OF dist snap Cons.prems(3) Cons.prems(4) Cons.prems(5), where plan = plan]
      by simp
  next
    case True
    define move where "move = min \<bar>deficit\<bar> cnt"
    define plan1 where "plan1 = plan @ [(dt, daz, raz, move)]"
    define ds1 where "ds1 = (if cnt = move then AList.delete (dt, daz) ds
                             else AList.update (dt, daz) (cnt - move) ds)"
    have move_bounds: "0 < move" "move \<le> cnt" "move \<le> - deficit"
      using pos Cons.prems(5) by (simp_all add: move_def)
    have upd: "(if cnt = move then dict_del (dt, daz) ds
                else dict_isub (dt, daz) move ds) = Inr ds1"
      by (simp add: dict_del_def dict_in_def dict_isub_def look ds1_def)
    have m1: "map_of ds1 k =
        (if k = (dt, daz) then (if cnt = move then None else Some (cnt - move))
         else map_of ds k)" for k
      by (simp add: ds1_def delete_conv' update_conv')
    have d1: "distinct (map fst ds1)"
      using Cons.prems(4) by (simp add: ds1_def distinct_delete distinct_update)
    have pos1: "0 < c" if "map_of ds1 k = Some c" for k c
      using that move_bounds Cons.prems(3) [of k c] by (auto simp: m1 split: if_splits)
    have snap1: "map_of ds1 k = Some c" if "(k, c) \<in> set items" for k c
    proof -
      have "k \<noteq> (dt, daz)" using that fresh by force
      then show ?thesis using snap [OF that] by (simp add: m1)
    qed
    have from1: "moved_from k plan1 + dict_get ds1 k 0 = moved_from k plan + dict_get ds k 0"
      for k
      using look by (auto simp: plan1_def moved_from_snoc dict_get_def m1)
    have into1: "moved_into k plan1 = moved_into k plan + (if k = (rt, raz) then move else 0)"
      for k
      using True by (auto simp: plan1_def moved_into_snoc)
    have set1: "set plan1 = insert (dt, daz, raz, move) (set plan)"
      by (simp add: plan1_def)
    show ?thesis
    proof (cases "0 \<le> deficit + move")
      case stop: True
      have res: "compensate rt raz (x # items) deficit ds plan = Inr (ds1, plan1)"
        using stop compensate_step [OF move_def upd [unfolded True]]
        by (simp add: x True plan1_def)
      have "moved_into k plan1 \<le> moved_into k plan + (if k = (rt, raz) then - deficit else 0)"
        for k
        using move_bounds by (simp add: into1)
      moreover have "\<forall>a \<in> set plan1. a \<in> set plan \<or> 0 < snd (snd (snd a))"
        using move_bounds by (simp add: set1)
      ultimately show ?thesis
        unfolding res using d1 pos1 from1 by blast
    next
      case go: False
      then have neg1: "deficit + move < 0" by simp
      have res: "compensate rt raz (x # items) deficit ds plan =
          compensate rt raz items (deficit + move) ds1 plan1"
        using go compensate_step [OF move_def upd [unfolded True]]
        by (simp add: x True plan1_def)
      obtain ds' plan' where
        r: "compensate rt raz items (deficit + move) ds1 plan1 = Inr (ds', plan')"
        and d': "distinct (map fst ds')"
        and p': "\<forall>k c. map_of ds' k = Some c \<longrightarrow> 0 < c"
        and f': "\<forall>k. moved_from k plan' + dict_get ds' k 0 =
                   moved_from k plan1 + dict_get ds1 k 0"
        and i': "\<forall>k. moved_into k plan' \<le>
                   moved_into k plan1 + (if k = (rt, raz) then - (deficit + move) else 0)"
        and s': "\<forall>a \<in> set plan'. a \<in> set plan1 \<or> 0 < snd (snd (snd a))"
      proof -
        have "\<exists>ds' plan'. compensate rt raz items (deficit + move) ds1 plan1 = Inr (ds', plan') \<and>
          distinct (map fst ds') \<and> (\<forall>k c. map_of ds' k = Some c \<longrightarrow> 0 < c) \<and>
          (\<forall>k. moved_from k plan' + dict_get ds' k 0 = moved_from k plan1 + dict_get ds1 k 0) \<and>
          (\<forall>k. moved_into k plan' \<le>
             moved_into k plan1 + (if k = (rt, raz) then - (deficit + move) else 0)) \<and>
          (\<forall>a \<in> set plan'. a \<in> set plan1 \<or> 0 < snd (snd (snd a)))"
        proof (rule Cons.IH)
          show "distinct (map fst items)" by (fact dist)
          show "\<And>k c. (k, c) \<in> set items \<Longrightarrow> map_of ds1 k = Some c" by (rule snap1)
          show "\<And>k c. map_of ds1 k = Some c \<Longrightarrow> 0 < c" by (rule pos1)
          show "distinct (map fst ds1)" by (fact d1)
          show "deficit + move < 0" by (fact neg1)
        qed
        then show ?thesis using that by blast
      qed
      have "moved_from k plan' + dict_get ds' k 0 = moved_from k plan + dict_get ds k 0" for k
        using f' [rule_format, of k] from1 [of k] by simp
      moreover have "moved_into k plan' \<le>
          moved_into k plan + (if k = (rt, raz) then - deficit else 0)" for k
        using i' [rule_format, of k] by (simp add: into1 split: if_splits)
      moreover have "\<forall>a \<in> set plan'. a \<in> set plan \<or> 0 < snd (snd (snd a))"
        using s' move_bounds by (auto simp: set1)
      ultimately show ?thesis
        unfolding res using r d' p' by blast
    qed
  qed
qed

lemma total_of_distinct:
  "distinct (map fst xs) \<Longrightarrow> total_of k xs = dict_get xs k 0"
proof (induction xs)
  case Nil
  show ?case by (simp add: total_of_def dict_get_def)
next
  case (Cons x xs)
  obtain a c where x: "x = (a, c)" by (cases x)
  show ?case
  proof (cases "a = k")
    case True
    then have "k \<notin> fst ` set xs" using Cons.prems x by simp
    then have "total_of k xs = 0" by (rule total_of_notin)
    then show ?thesis using True by (simp add: x total_of_Cons dict_get_def)
  next
    case False
    then show ?thesis using Cons by (simp add: x total_of_Cons dict_get_def)
  qed
qed

lemma distribute_correct:
  assumes "distinct (map fst ds)"
    and "\<And>k c. map_of ds k = Some c \<Longrightarrow> 0 < c"
    and "\<forall>p \<in> set rs. snd p < 0"
  shows "\<exists>plan'. distribute rs ds plan = Inr plan' \<and>
      (\<forall>k. moved_from k plan' \<le> moved_from k plan + dict_get ds k 0) \<and>
      (\<forall>k. moved_into k plan' \<le> moved_into k plan - total_of k rs) \<and>
      (\<forall>a \<in> set plan'. a \<in> set plan \<or> 0 < snd (snd (snd a)))"
  using assms
proof (induction rs arbitrary: ds plan)
  case Nil
  have "0 \<le> dict_get ds k 0" for k
    using Nil.prems(2) [of k] by (cases "map_of ds k") (auto simp: dict_get_def intro: less_imp_le)
  then show ?case by (simp add: total_of_def)
next
  case (Cons x rs)
  obtain rt raz d where x: "x = ((rt, raz), d)" by (cases x) auto
  have neg: "d < 0" and rest: "\<forall>p \<in> set rs. snd p < 0"
    using Cons.prems(3) by (simp_all add: x)
  have "\<exists>ds' plan'. compensate rt raz ds d ds plan = Inr (ds', plan') \<and>
      distinct (map fst ds') \<and> (\<forall>k c. map_of ds' k = Some c \<longrightarrow> 0 < c) \<and>
      (\<forall>k. moved_from k plan' + dict_get ds' k 0 = moved_from k plan + dict_get ds k 0) \<and>
      (\<forall>k. moved_into k plan' \<le> moved_into k plan + (if k = (rt, raz) then - d else 0)) \<and>
      (\<forall>a \<in> set plan'. a \<in> set plan \<or> 0 < snd (snd (snd a)))"
  proof (rule compensate_correct)
    show "distinct (map fst ds)" by (fact Cons.prems(1))
    show "\<And>k c. (k, c) \<in> set ds \<Longrightarrow> map_of ds k = Some c"
      using Cons.prems(1) by simp
    show "\<And>k c. map_of ds k = Some c \<Longrightarrow> 0 < c" by (rule Cons.prems(2))
    show "distinct (map fst ds)" by (fact Cons.prems(1))
    show "d < 0" by (fact neg)
  qed
  then obtain ds1 plan1 where
    c: "compensate rt raz ds d ds plan = Inr (ds1, plan1)"
    and d1: "distinct (map fst ds1)"
    and p1: "\<And>k c. map_of ds1 k = Some c \<Longrightarrow> 0 < c"
    and f1: "\<And>k. moved_from k plan1 + dict_get ds1 k 0 = moved_from k plan + dict_get ds k 0"
    and i1: "\<And>k. moved_into k plan1 \<le> moved_into k plan + (if k = (rt, raz) then - d else 0)"
    and s1: "\<forall>a \<in> set plan1. a \<in> set plan \<or> 0 < snd (snd (snd a))"
    by blast
  have step: "distribute (x # rs) ds plan = distribute rs ds1 plan1"
    by (simp add: x c)
  have "\<exists>plan'. distribute rs ds1 plan1 = Inr plan' \<and>
      (\<forall>k. moved_from k plan' \<le> moved_from k plan1 + dict_get ds1 k 0) \<and>
      (\<forall>k. moved_into k plan' \<le> moved_into k plan1 - total_of k rs) \<and>
      (\<forall>a \<in> set plan'. a \<in> set plan1 \<or> 0 < snd (snd (snd a)))"
  proof (rule Cons.IH)
    show "distinct (map fst ds1)" by (fact d1)
    show "\<And>k c. map_of ds1 k = Some c \<Longrightarrow> 0 < c" by (rule p1)
    show "\<forall>p \<in> set rs. snd p < 0" by (fact rest)
  qed
  then obtain plan' where
    r: "distribute rs ds1 plan1 = Inr plan'"
    and f': "\<And>k. moved_from k plan' \<le> moved_from k plan1 + dict_get ds1 k 0"
    and i': "\<And>k. moved_into k plan' \<le> moved_into k plan1 - total_of k rs"
    and s': "\<forall>a \<in> set plan'. a \<in> set plan1 \<or> 0 < snd (snd (snd a))"
    by blast
  have "moved_from k plan' \<le> moved_from k plan + dict_get ds k 0" for k
    using f' [of k] f1 [of k] by simp
  moreover have "moved_into k plan' \<le> moved_into k plan - total_of k (x # rs)" for k
    using i' [of k] i1 [of k] by (simp add: x total_of_Cons split: if_splits)
  moreover have "\<forall>a \<in> set plan'. a \<in> set plan \<or> 0 < snd (snd (snd a))"
    using s' s1 by blast
  ultimately show ?case
    unfolding step using r by blast
qed

lemma distribute_bounds:
  assumes "distinct (map fst ds)" and "\<forall>p \<in> set ds. 0 < snd p"
    and "distinct (map fst rs)" and "\<forall>p \<in> set rs. snd p < 0"
  shows "\<exists>plan. distribute rs ds [] = Inr plan \<and>
      (\<forall>k. moved_from k plan \<le> dict_get ds k 0) \<and>
      (\<forall>k. moved_into k plan \<le> - dict_get rs k 0) \<and>
      (\<forall>a \<in> set plan. 0 < snd (snd (snd a)))"
proof -
  have "\<exists>plan'. distribute rs ds [] = Inr plan' \<and>
      (\<forall>k. moved_from k plan' \<le> moved_from k [] + dict_get ds k 0) \<and>
      (\<forall>k. moved_into k plan' \<le> moved_into k [] - total_of k rs) \<and>
      (\<forall>a \<in> set plan'. a \<in> set [] \<or> 0 < snd (snd (snd a)))"
  proof (rule distribute_correct)
    show "distinct (map fst ds)" by (fact assms(1))
    show "\<And>k c. map_of ds k = Some c \<Longrightarrow> 0 < c"
    proof -
      fix k c
      assume "map_of ds k = Some c"
      then have "(k, c) \<in> set ds" by (rule map_of_SomeD)
      then show "0 < c" using assms(2) by force
    qed
    show "\<forall>p \<in> set rs. snd p < 0" by (fact assms(4))
  qed
  then show ?thesis
    by (auto simp: moved_from_Nil moved_into_Nil total_of_distinct [OF assms(3)])
qed

text \<open>
  C1. For every mismatch (a dict, so its keys are distinct) the greedy planner returns a
  plan, every action of the plan moves a positive count, the counts of the actions that
  draw from a key (instance type, source zone) add up to at most the surplus of that key
  (its difference when positive, otherwise 0), and the counts of the actions that
  deliver into a key (instance type, destination zone) add up to at most the deficit of
  that key (the absolute value of its difference when negative, otherwise 0).
\<close>

theorem greedy_distribution_bounds:
  assumes "distinct (map fst mismatch)"
  shows "\<exists>plan. greedy_distribution mismatch = Inr plan \<and>
      (\<forall>k. moved_from k plan \<le> max 0 (dict_get mismatch k 0)) \<and>
      (\<forall>k. moved_into k plan \<le> max 0 (- dict_get mismatch k 0)) \<and>
      (\<forall>(itype, source_az, dest_az, n) \<in> set plan. 0 < n)"
proof -
  let ?rs = "filter (\<lambda>(k, d). d < 0) mismatch"
  let ?ds = "filter (\<lambda>(k, d). 0 < d) mismatch"
  have dr: "distinct (map fst ?rs)" and dd: "distinct (map fst ?ds)"
    using assms by (simp_all add: distinct_filter_keys)
  have mr: "map_of ?rs k =
      (case map_of mismatch k of None \<Rightarrow> None | Some d \<Rightarrow> if d < 0 then Some d else None)"
    for k
    using assms by (rule map_of_filter_distinct)
  have md: "map_of ?ds k =
      (case map_of mismatch k of None \<Rightarrow> None | Some d \<Rightarrow> if 0 < d then Some d else None)"
    for k
    using assms by (rule map_of_filter_distinct)
  have "\<exists>plan'. distribute ?rs ?ds [] = Inr plan' \<and>
      (\<forall>k. moved_from k plan' \<le> moved_from k [] + dict_get ?ds k 0) \<and>
      (\<forall>k. moved_into k plan' \<le> moved_into k [] - total_of k ?rs) \<and>
      (\<forall>a \<in> set plan'. a \<in> set [] \<or> 0 < snd (snd (snd a)))"
  proof (rule distribute_correct)
    show "distinct (map fst ?ds)" by (fact dd)
    show "\<And>k c. map_of ?ds k = Some c \<Longrightarrow> 0 < c"
      by (simp add: md split: option.splits if_splits)
    show "\<forall>p \<in> set ?rs. snd p < 0" by auto
  qed
  then obtain plan where
    r: "distribute ?rs ?ds [] = Inr plan"
    and f: "\<And>k. moved_from k plan \<le> moved_from k [] + dict_get ?ds k 0"
    and i: "\<And>k. moved_into k plan \<le> moved_into k [] - total_of k ?rs"
    and s: "\<forall>a \<in> set plan. a \<in> set [] \<or> 0 < snd (snd (snd a))"
    by blast
  have "greedy_distribution mismatch = Inr plan"
    using assms r by (simp add: greedy_distribution_filter)
  moreover have "moved_from k plan \<le> max 0 (dict_get mismatch k 0)" for k
    using f [of k] by (simp add: moved_from_Nil dict_get_def md split: option.splits if_splits)
  moreover have "moved_into k plan \<le> max 0 (- dict_get mismatch k 0)" for k
    using i [of k]
    by (simp add: moved_into_Nil total_of_distinct [OF dr] dict_get_def mr
        split: option.splits if_splits)
  moreover have "\<forall>(itype, source_az, dest_az, n) \<in> set plan. 0 < n"
    using s by auto
  ultimately show ?thesis by blast
qed

theorem greedy_distribution_bounds_witness:
  "distinct (map fst [((''m4.large'', ''us-east-1a''), 3 :: int), ((''m4.large'', ''us-east-1b''), - 6),
       ((''m4.large'', ''us-east-1c''), 5), ((''m4.large'', ''us-east-1d''), - 6)]) \<and>
   greedy_distribution [((''m4.large'', ''us-east-1a''), 3), ((''m4.large'', ''us-east-1b''), - 6),
       ((''m4.large'', ''us-east-1c''), 5), ((''m4.large'', ''us-east-1d''), - 6)] =
     Inr [(''m4.large'', ''us-east-1a'', ''us-east-1b'', 3),
          (''m4.large'', ''us-east-1c'', ''us-east-1b'', 3),
          (''m4.large'', ''us-east-1c'', ''us-east-1d'', 2)] \<and>
   (\<exists>plan. greedy_distribution [((''m4.large'', ''us-east-1a''), 3), ((''m4.large'', ''us-east-1b''), - 6),
       ((''m4.large'', ''us-east-1c''), 5), ((''m4.large'', ''us-east-1d''), - 6)] = Inr plan \<and>
      moved_from (''m4.large'', ''us-east-1c'') plan \<le> 5 \<and>
      moved_into (''m4.large'', ''us-east-1d'') plan \<le> 6)"
proof -
  let ?m = "[((''m4.large'', ''us-east-1a''), 3 :: int), ((''m4.large'', ''us-east-1b''), - 6),
       ((''m4.large'', ''us-east-1c''), 5), ((''m4.large'', ''us-east-1d''), - 6)]"
  have d: "distinct (map fst ?m)" by simp
  have e: "greedy_distribution ?m =
     Inr [(''m4.large'', ''us-east-1a'', ''us-east-1b'', 3),
          (''m4.large'', ''us-east-1c'', ''us-east-1b'', 3),
          (''m4.large'', ''us-east-1c'', ''us-east-1d'', 2)]"
    by (simp add: greedy_distribution_def dict_del_def dict_isub_def dict_in_def)
  obtain plan where p: "greedy_distribution ?m = Inr plan"
    and f: "\<forall>k. moved_from k plan \<le> max 0 (dict_get ?m k 0)"
    and i: "\<forall>k. moved_into k plan \<le> max 0 (- dict_get ?m k 0)"
    using greedy_distribution_bounds [OF d] by blast
  have "moved_from (''m4.large'', ''us-east-1c'') plan \<le> 5"
    using f [rule_format, of "(''m4.large'', ''us-east-1c'')"] by (simp add: dict_get_def)
  moreover have "moved_into (''m4.large'', ''us-east-1d'') plan \<le> 6"
    using i [rule_format, of "(''m4.large'', ''us-east-1d'')"] by (simp add: dict_get_def)
  ultimately show ?thesis using d e p by blast
qed

subsection \<open>Plan execution: the invariant\<close>

lemma move_loop_unfold:
  "move_loop dest_az donor_groups index cnt st =
     (if index < length donor_groups \<and> cnt > 0
      then move_loop dest_az donor_groups (index + 1)
             (cnt - min cnt (instance_count (st_groups st ! (donor_groups ! index))))
             (move_step dest_az (donor_groups ! index) cnt st)
      else st)"
  by (subst move_loop.simps)
    (simp add: move_step_def Let_def dict_get_def split: option.splits)

lemma sum_list_update:
  fixes f :: "'k \<times> 'v \<Rightarrow> int"
  shows "sum_list (map f (AList.update k v xs)) =
     sum_list (map f xs) - (case map_of xs k of None \<Rightarrow> 0 | Some old \<Rightarrow> f (k, old)) + f (k, v)"
  by (induction xs) auto

lemma descriptor_total_snoc:
  "descriptor_total g (descriptors @ [(r, dest_az, c)]) =
     descriptor_total g descriptors + (if r = g then c else 0)"
  by (simp add: descriptor_total_def)

lemma descriptor_total_Nil: "descriptor_total g [] = 0"
  by (simp add: descriptor_total_def)

lemma moved_out_move_step:
  "moved_out (move_step dest_az r cnt st) i =
     moved_out st i + (if r = i then min cnt (instance_count (st_groups st ! r)) else 0)"
  by (simp add: moved_out_def move_step_def Let_def sum_list_update dict_get_def
      descriptor_total_snoc descriptor_total_Nil split: option.splits)

lemma set_update_subset:
  "set (AList.update k v xs) \<subseteq> insert (k, v) (set xs)"
  by (induction xs) auto

lemma move_step_inv:
  assumes inv: "exec_inv G st"
    and r: "r < length G"
    and avail: "0 < instance_count (st_groups st ! r)"
    and cnt: "0 < cnt"
  shows "exec_inv G (move_step dest_az r cnt st)"
proof -
  let ?g = "st_groups st ! r"
  let ?move = "min cnt (instance_count ?g)"
  let ?st' = "move_step dest_az r cnt st"
  have len: "length (st_groups st) = length G" using inv by (simp add: exec_inv_def)
  have mv: "0 < ?move" "?move \<le> instance_count ?g" using avail cnt by simp_all
  have gid: "group_id ?g = group_id (G ! r)" using inv r by (simp add: exec_inv_def)
  have groups': "st_groups ?st' =
      (st_groups st)[r := ?g\<lparr>instance_count := instance_count ?g - ?move\<rparr>]"
    by (simp add: move_step_def Let_def)
  have mods': "st_modifications ?st' =
      AList.update (group_id ?g)
        (dict_get (st_modifications st) (group_id ?g) [] @ [(r, dest_az, ?move)])
        (st_modifications st)"
    by (simp add: move_step_def Let_def)
  have 1: "length (st_groups ?st') = length G" by (simp add: groups' len)
  have 2: "group_id (st_groups ?st' ! i) = group_id (G ! i) \<and>
        instance_type (st_groups ?st' ! i) = instance_type (G ! i) \<and>
        availability_zone (st_groups ?st' ! i) = availability_zone (G ! i) \<and>
        instance_count (st_groups ?st' ! i) + moved_out ?st' i = instance_count (G ! i) \<and>
        min 0 (instance_count (G ! i)) \<le> instance_count (st_groups ?st' ! i)"
    if i: "i < length G" for i
  proof -
    have old: "group_id (st_groups st ! i) = group_id (G ! i)"
      "instance_type (st_groups st ! i) = instance_type (G ! i)"
      "availability_zone (st_groups st ! i) = availability_zone (G ! i)"
      "instance_count (st_groups st ! i) + moved_out st i = instance_count (G ! i)"
      "min 0 (instance_count (G ! i)) \<le> instance_count (st_groups st ! i)"
      using inv i by (simp_all add: exec_inv_def)
    show ?thesis
    proof (cases "i = r")
      case True
      then show ?thesis
        using old mv r len by (simp add: groups' moved_out_move_step)
    next
      case False
      then show ?thesis
        using old i len by (simp add: groups' moved_out_move_step)
    qed
  qed
  have 3: "distinct (map fst (st_modifications ?st'))"
    using inv by (simp add: mods' distinct_update exec_inv_def)
  have 4: "descriptors \<noteq> [] \<and>
        (\<forall>(r', dest', c) \<in> set descriptors.
            r' < length G \<and> group_id (G ! r') = k \<and> 0 < c)"
    if mem: "(k, descriptors) \<in> set (st_modifications ?st')" for k descriptors
  proof -
    have oldb: "ds \<noteq> [] \<and>
        (\<forall>(r', dest', c) \<in> set ds. r' < length G \<and> group_id (G ! r') = k' \<and> 0 < c)"
      if "(k', ds) \<in> set (st_modifications st)" for k' ds
      using inv that by (auto simp: exec_inv_def)
    from mem set_update_subset [of "group_id ?g" _ "st_modifications st"]
    consider (new) "k = group_id ?g"
        "descriptors = dict_get (st_modifications st) (group_id ?g) [] @ [(r, dest_az, ?move)]"
      | (old) "(k, descriptors) \<in> set (st_modifications st)"
      unfolding mods' by blast
    then show ?thesis
    proof cases
      case new
      have "\<forall>(r', dest', c) \<in> set (dict_get (st_modifications st) (group_id ?g) []).
          r' < length G \<and> group_id (G ! r') = group_id ?g \<and> 0 < c"
      proof (cases "map_of (st_modifications st) (group_id ?g)")
        case None
        then show ?thesis by (simp add: dict_get_def)
      next
        case (Some ds)
        then have "(group_id ?g, ds) \<in> set (st_modifications st)" by (rule map_of_SomeD)
        from oldb [OF this] Some show ?thesis by (simp add: dict_get_def)
      qed
      then show ?thesis using new mv r gid by auto
    next
      case old
      then show ?thesis by (rule oldb)
    qed
  qed
  show ?thesis
    unfolding exec_inv_def using 1 2 3 4 by blast
qed

lemma move_step_other:
  "i \<noteq> r \<Longrightarrow> st_groups (move_step dest_az r cnt st) ! i = st_groups st ! i"
  by (simp add: move_step_def Let_def)

lemma move_loop_inv:
  assumes "exec_inv G st"
    and "distinct donor_groups"
    and "\<forall>j. index \<le> j \<and> j < length donor_groups \<longrightarrow>
           donor_groups ! j < length G \<and> 0 < instance_count (st_groups st ! (donor_groups ! j))"
  shows "exec_inv G (move_loop dest_az donor_groups index cnt st)"
  using assms
proof (induction "length donor_groups - index" arbitrary: index cnt st)
  case 0
  then have "\<not> index < length donor_groups" by simp
  then show ?case
    using "0.prems"(1) by (subst move_loop_unfold) simp
next
  case (Suc n)
  show ?case
  proof (cases "index < length donor_groups \<and> cnt > 0")
    case False
    then show ?thesis
      using Suc.prems(1) by (subst move_loop_unfold) auto
  next
    case True
    let ?r = "donor_groups ! index"
    let ?st' = "move_step dest_az ?r cnt st"
    have r: "?r < length G" and avail: "0 < instance_count (st_groups st ! ?r)"
      using Suc.prems(3) True by auto
    have inv': "exec_inv G ?st'"
      using Suc.prems(1) r avail True by (simp add: move_step_inv)
    have rest: "\<forall>j. index + 1 \<le> j \<and> j < length donor_groups \<longrightarrow>
           donor_groups ! j < length G \<and> 0 < instance_count (st_groups ?st' ! (donor_groups ! j))"
    proof (intro allI impI)
      fix j
      assume j: "index + 1 \<le> j \<and> j < length donor_groups"
      then have "donor_groups ! j \<noteq> ?r"
        using Suc.prems(2) True by (simp add: nth_eq_iff_index_eq)
      then show "donor_groups ! j < length G \<and>
          0 < instance_count (st_groups ?st' ! (donor_groups ! j))"
        using Suc.prems(3) j by (simp add: move_step_other)
    qed
    have n: "n = length donor_groups - (index + 1)"
      using Suc.hyps(2) by simp
    have "exec_inv G (move_loop dest_az donor_groups (index + 1)
        (cnt - min cnt (instance_count (st_groups st ! ?r))) ?st')"
      using n inv' Suc.prems(2) rest by (rule Suc.hyps(1))
    then show ?thesis
      using True by (subst move_loop_unfold) simp
  qed
qed

lemma select_donor_groups_props:
  "distinct (select_donor_groups groups itype source_az) \<and>
   (\<forall>j < length (select_donor_groups groups itype source_az).
      select_donor_groups groups itype source_az ! j < length groups \<and>
      instance_type (groups ! (select_donor_groups groups itype source_az ! j)) = itype \<and>
      availability_zone (groups ! (select_donor_groups groups itype source_az ! j)) = source_az \<and>
      0 < instance_count (groups ! (select_donor_groups groups itype source_az ! j)))"
proof -
  let ?xs = "select_donor_groups groups itype source_az"
  have "\<forall>x \<in> set ?xs. x < length groups \<and> instance_type (groups ! x) = itype \<and>
      availability_zone (groups ! x) = source_az \<and> 0 < instance_count (groups ! x)"
    by (auto simp: select_donor_groups_def)
  moreover have "distinct ?xs" by (simp add: select_donor_groups_def)
  ultimately show ?thesis by (simp add: all_set_conv_all_nth)
qed

lemma plan_loop_inv: "exec_inv G st \<Longrightarrow> exec_inv G (plan_loop plan st)"
proof (induction plan arbitrary: st)
  case Nil
  then show ?case by simp
next
  case (Cons action plan)
  obtain itype source_az dest_az cnt where a: "action = (itype, source_az, dest_az, cnt)"
    by (cases action) auto
  let ?dgs = "select_donor_groups (st_groups st) itype source_az"
  have len: "length (st_groups st) = length G"
    using Cons.prems by (simp add: exec_inv_def)
  have "exec_inv G (move_loop dest_az ?dgs 0 cnt st)"
    using Cons.prems select_donor_groups_props [of "st_groups st" itype source_az]
    by (intro move_loop_inv) (simp_all add: len)
  then show ?case
    by (simp add: a Cons.IH)
qed

lemma exec_inv_initial: "exec_inv G \<lparr>st_groups = G, st_modifications = []\<rparr>"
  by (simp add: exec_inv_def moved_out_def)

lemma build_modifications_inv: "exec_inv G (build_modifications G plan)"
  by (simp add: build_modifications_def plan_loop_inv exec_inv_initial)

subsection \<open>Plan execution: the batches\<close>

lemma configurations_loop_ok:
  "\<forall>(r, dest_az, c) \<in> set descriptors. group_id (groups ! r) = gid \<Longrightarrow>
   configurations_loop groups gid descriptors acc =
     Inr (acc @ move_configurations descriptors)"
  by (induction descriptors arbitrary: acc) (auto simp: move_configurations_def)

lemma target_configurations_of_batch:
  assumes inv: "exec_inv G st"
    and mem: "(gid, descriptors) \<in> set (st_modifications st)"
  shows "target_configurations_of (st_groups st) descriptors =
     Inr (gid, move_configurations descriptors @
               remainder_configuration (st_groups st ! fst (last descriptors)))"
proof -
  have ne: "descriptors \<noteq> []"
    and refs: "\<forall>(r, dest_az, c) \<in> set descriptors. r < length G \<and> group_id (G ! r) = gid"
    using inv mem by (auto simp: exec_inv_def)
  have ids: "\<forall>(r, dest_az, c) \<in> set descriptors. group_id (st_groups st ! r) = gid"
    using refs inv by (auto simp: exec_inv_def)
  obtain d rest where split: "descriptors = d # rest"
    using ne by (cases descriptors) auto
  obtain r0 dest0 c0 where d: "d = (r0, dest0, c0)" by (cases d) auto
  have first: "group_id (st_groups st ! fst (descriptors ! 0)) = gid"
    using ids by (simp add: split d)
  show ?thesis
    using ne by (simp add: target_configurations_of_def first configurations_loop_ok [OF ids]
        remainder_configuration_def Let_def)
qed

lemma sum_list_single:
  fixes f :: "'a \<Rightarrow> int"
  assumes "x \<in> set xs" and "distinct xs" and "\<forall>y \<in> set xs. y \<noteq> x \<longrightarrow> f y = 0"
  shows "sum_list (map f xs) = f x"
  using assms
proof (induction xs)
  case Nil
  then show ?case by simp
next
  case (Cons a xs)
  show ?case
  proof (cases "a = x")
    case True
    then have "\<forall>y \<in> set xs. f y = 0" using Cons.prems by auto
    then have "sum_list (map f xs) = 0" by (induction xs) auto
    then show ?thesis using True by simp
  next
    case False
    then show ?thesis using Cons by auto
  qed
qed

lemma descriptor_total_all:
  "\<forall>(r', dest_az, c) \<in> set descriptors. r' = r \<Longrightarrow>
   descriptor_total r descriptors = batch_total descriptors"
  by (induction descriptors) (auto simp: descriptor_total_def batch_total_def)

lemma descriptor_total_none:
  "\<forall>(r', dest_az, c) \<in> set descriptors. r' \<noteq> r \<Longrightarrow> descriptor_total r descriptors = 0"
  by (induction descriptors) (auto simp: descriptor_total_def)

lemma batch_total_configurations:
  "sum_list (map cfg_instance_count (move_configurations descriptors)) = batch_total descriptors"
  by (induction descriptors) (auto simp: move_configurations_def batch_total_def)

lemma batch_total_pos:
  "descriptors \<noteq> [] \<Longrightarrow> \<forall>(r, dest_az, c) \<in> set descriptors. 0 < c \<Longrightarrow>
   0 < batch_total descriptors"
proof (induction descriptors)
  case Nil
  then show ?case by simp
next
  case (Cons d descriptors)
  obtain r dest_az c where d: "d = (r, dest_az, c)" by (cases d) auto
  have c: "0 < c" using Cons.prems(2) by (simp add: d)
  show ?case
  proof (cases "descriptors = []")
    case True
    then show ?thesis using c by (simp add: d batch_total_def)
  next
    case False
    then have "0 < batch_total descriptors" using Cons by simp
    then show ?thesis using c by (simp add: d batch_total_def)
  qed
qed

lemma batch_conservation:
  assumes inv: "exec_inv G st"
    and mem: "(gid, descriptors) \<in> set (st_modifications st)"
    and ids: "distinct (map group_id G)"
  shows "\<exists>r < length G. group_id (G ! r) = gid \<and>
      (\<forall>(r', dest_az, c) \<in> set descriptors. r' = r) \<and>
      0 \<le> instance_count (st_groups st ! r) \<and>
      batch_total descriptors + instance_count (st_groups st ! r) = instance_count (G ! r)"
proof -
  have ne: "descriptors \<noteq> []"
    and refs: "\<forall>(r, dest_az, c) \<in> set descriptors. r < length G \<and> group_id (G ! r) = gid \<and> 0 < c"
    using inv mem by (auto simp: exec_inv_def)
  obtain r dest0 c0 where first: "(r, dest0, c0) \<in> set descriptors"
    using ne by (cases descriptors) auto
  have r: "r < length G" and gid: "group_id (G ! r) = gid"
    using refs first by auto
  have unique: "r' = r" if "r' < length G" and "group_id (G ! r') = gid" for r'
  proof -
    have "map group_id G ! r' = map group_id G ! r" using that r gid by simp
    moreover have "r' < length (map group_id G)" "r < length (map group_id G)"
      using that r by simp_all
    ultimately show ?thesis
      using nth_eq_iff_index_eq [OF ids, of r' r] by blast
  qed
  have same: "\<forall>(r', dest_az, c) \<in> set descriptors. r' = r"
    using refs unique by auto
  let ?f = "\<lambda>(gid, descriptors). descriptor_total r descriptors"
  have others: "\<forall>y \<in> set (st_modifications st). y \<noteq> (gid, descriptors) \<longrightarrow> ?f y = 0"
  proof (intro ballI impI)
    fix y
    assume y: "y \<in> set (st_modifications st)" and neq: "y \<noteq> (gid, descriptors)"
    obtain gid' ds' where y': "y = (gid', ds')" by (cases y)
    have dk: "distinct (map fst (st_modifications st))"
      using inv by (simp add: exec_inv_def)
    have "gid' \<noteq> gid"
    proof
      assume "gid' = gid"
      then have "ds' = descriptors"
        using dk y mem y' by (metis eq_key_imp_eq_value)
      then show False using neq y' \<open>gid' = gid\<close> by simp
    qed
    moreover have "\<forall>(r', dest_az, c) \<in> set ds'. r' < length G \<and> group_id (G ! r') = gid'"
      using inv y y' by (auto simp: exec_inv_def)
    ultimately have "\<forall>(r', dest_az, c) \<in> set ds'. r' \<noteq> r"
      using gid by auto
    then show "?f y = 0" by (simp add: y' descriptor_total_none)
  qed
  have dist: "distinct (st_modifications st)"
    using inv by (auto simp: exec_inv_def dest: distinct_map [THEN iffD1])
  have "moved_out st r = ?f (gid, descriptors)"
    unfolding moved_out_def using mem dist others by (rule sum_list_single)
  then have moved: "moved_out st r = batch_total descriptors"
    using same by (simp add: descriptor_total_all)
  have cons: "instance_count (st_groups st ! r) + moved_out st r = instance_count (G ! r)"
    and low: "min 0 (instance_count (G ! r)) \<le> instance_count (st_groups st ! r)"
    using inv r by (simp_all add: exec_inv_def)
  have "0 < batch_total descriptors"
    using ne refs by (intro batch_total_pos) auto
  then have "0 \<le> instance_count (st_groups st ! r)"
    using cons low moved by (simp add: min_def split: if_splits)
  then show ?thesis
    using r gid same cons moved by auto
qed

subsection \<open>Plan execution: submitting the batches\<close>

lemma move_reserved_instances_dry:
  "target_configurations_of groups descriptors = Inr (gid, cfgs) \<Longrightarrow>
   move_reserved_instances conn groups descriptors False trace = Inr (''rimod-<DRY-RUN>'', trace)"
  by (simp add: move_reserved_instances_def)

lemma move_reserved_instances_live:
  "target_configurations_of groups descriptors = Inr (gid, cfgs) \<Longrightarrow>
   move_reserved_instances conn groups descriptors True trace =
     Inr (modify_reserved_instances conn (time_time conn (length trace)) [gid] cfgs,
          trace @ [ModifyReservedInstances (time_time conn (length trace)) [gid] cfgs])"
  by (simp add: move_reserved_instances_def Let_def)

lemma submit_loop_dry:
  assumes "\<forall>descriptors \<in> set batches.
      \<exists>gid cfgs. target_configurations_of groups descriptors = Inr (gid, cfgs)"
  shows "submit_loop conn groups batches False ids trace =
     Inr (ids @ replicate (length batches) ''rimod-<DRY-RUN>'', trace)"
  using assms
proof (induction batches arbitrary: ids)
  case Nil
  show ?case by simp
next
  case (Cons b batches)
  obtain gid cfgs where b: "target_configurations_of groups b = Inr (gid, cfgs)"
    using Cons.prems by auto
  have "submit_loop conn groups (b # batches) False ids trace =
      submit_loop conn groups batches False (ids @ [''rimod-<DRY-RUN>'']) trace"
    by (simp add: move_reserved_instances_dry [OF b])
  also have "\<dots> = Inr ((ids @ [''rimod-<DRY-RUN>'']) @
      replicate (length batches) ''rimod-<DRY-RUN>'', trace)"
    using Cons.prems by (intro Cons.IH) simp
  finally show ?case by simp
qed

lemma submit_loop_live:
  assumes "\<forall>descriptors \<in> set batches.
      \<exists>gid cfgs. target_configurations_of groups descriptors = Inr (gid, cfgs)"
  shows "\<exists>new calls. submit_loop conn groups batches True ids trace =
        Inr (ids @ new, trace @ calls) \<and>
      list_all2 (\<lambda>call descriptors. \<exists>tok gid cfgs.
          target_configurations_of groups descriptors = Inr (gid, cfgs) \<and>
          call = ModifyReservedInstances tok [gid] cfgs) calls batches \<and>
      list_all2 (\<lambda>i call. \<exists>tok gids cfgs. call = ModifyReservedInstances tok gids cfgs \<and>
          i = modify_reserved_instances conn tok gids cfgs) new calls"
  using assms
proof (induction batches arbitrary: ids trace)
  case Nil
  show ?case by simp
next
  case (Cons b batches)
  obtain gid cfgs where b: "target_configurations_of groups b = Inr (gid, cfgs)"
    using Cons.prems by auto
  let ?tok = "time_time conn (length trace)"
  let ?call = "ModifyReservedInstances ?tok [gid] cfgs"
  let ?id = "modify_reserved_instances conn ?tok [gid] cfgs"
  have step: "submit_loop conn groups (b # batches) True ids trace =
      submit_loop conn groups batches True (ids @ [?id]) (trace @ [?call])"
    by (simp add: move_reserved_instances_live [OF b])
  have "\<forall>descriptors \<in> set batches.
      \<exists>gid cfgs. target_configurations_of groups descriptors = Inr (gid, cfgs)"
    using Cons.prems by simp
  from Cons.IH [OF this, where ids = "ids @ [?id]" and trace = "trace @ [?call]"]
  obtain new calls where
    r: "submit_loop conn groups batches True (ids @ [?id]) (trace @ [?call]) =
        Inr ((ids @ [?id]) @ new, (trace @ [?call]) @ calls)"
    and c: "list_all2 (\<lambda>call descriptors. \<exists>tok gid cfgs.
          target_configurations_of groups descriptors = Inr (gid, cfgs) \<and>
          call = ModifyReservedInstances tok [gid] cfgs) calls batches"
    and i: "list_all2 (\<lambda>i call. \<exists>tok gids cfgs. call = ModifyReservedInstances tok gids cfgs \<and>
          i = modify_reserved_instances conn tok gids cfgs) new calls"
    by blast
  have "submit_loop conn groups (b # batches) True ids trace =
      Inr (ids @ (?id # new), trace @ (?call # calls))"
    using step r by simp
  moreover have "list_all2 (\<lambda>call descriptors. \<exists>tok gid cfgs.
          target_configurations_of groups descriptors = Inr (gid, cfgs) \<and>
          call = ModifyReservedInstances tok [gid] cfgs) (?call # calls) (b # batches)"
    using c b by simp
  moreover have "list_all2 (\<lambda>i call. \<exists>tok gids cfgs.
          call = ModifyReservedInstances tok gids cfgs \<and>
          i = modify_reserved_instances conn tok gids cfgs) (?id # new) (?call # calls)"
    using i by simp
  ultimately show ?case by blast
qed

lemma batches_configured:
  assumes "exec_inv G st"
  shows "\<forall>descriptors \<in> set (map snd (st_modifications st)).
      \<exists>gid cfgs. target_configurations_of (st_groups st) descriptors = Inr (gid, cfgs)"
  using target_configurations_of_batch [OF assms] by fastforce

lemma execute_plan_dry:
  "execute_plan conn creds region plan False trace =
     Inr (replicate (length (st_modifications
            (build_modifications (get_all_reserved_instances conn creds region) plan)))
          ''rimod-<DRY-RUN>'', trace)"
  using submit_loop_dry [OF batches_configured [OF build_modifications_inv],
      where conn = conn and ids = "[]" and trace = trace]
  by (simp add: execute_plan_def Let_def)

lemma execute_plan_live:
  "\<exists>ids calls. execute_plan conn creds region plan True trace = Inr (ids, trace @ calls) \<and>
     list_all2 (\<lambda>call (gid, descriptors). \<exists>tok.
         call = ModifyReservedInstances tok [gid]
           (move_configurations descriptors @ remainder_configuration
              (st_groups (build_modifications (get_all_reserved_instances conn creds region) plan)
                 ! fst (last descriptors))))
       calls
       (st_modifications (build_modifications (get_all_reserved_instances conn creds region) plan)) \<and>
     list_all2 (\<lambda>i call. \<exists>tok gids cfgs. call = ModifyReservedInstances tok gids cfgs \<and>
         i = modify_reserved_instances conn tok gids cfgs) ids calls"
proof -
  let ?G = "get_all_reserved_instances conn creds region"
  let ?st = "build_modifications ?G plan"
  have inv: "exec_inv ?G ?st" by (rule build_modifications_inv)
  from submit_loop_live [OF batches_configured [OF inv],
      where conn = conn and ids = "[]" and trace = trace]
  obtain new calls where
    r: "submit_loop conn (st_groups ?st) (map snd (st_modifications ?st)) True [] trace =
        Inr ([] @ new, trace @ calls)"
    and c: "list_all2 (\<lambda>call descriptors. \<exists>tok gid cfgs.
          target_configurations_of (st_groups ?st) descriptors = Inr (gid, cfgs) \<and>
          call = ModifyReservedInstances tok [gid] cfgs) calls (map snd (st_modifications ?st))"
    and i: "list_all2 (\<lambda>i call. \<exists>tok gids cfgs. call = ModifyReservedInstances tok gids cfgs \<and>
          i = modify_reserved_instances conn tok gids cfgs) new calls"
    by blast
  have c1: "list_all2 (\<lambda>call b. \<exists>tok gid cfgs.
          target_configurations_of (st_groups ?st) (snd b) = Inr (gid, cfgs) \<and>
          call = ModifyReservedInstances tok [gid] cfgs) calls (st_modifications ?st)"
    using c by (simp add: list_all2_map2)
  have c2: "list_all2 (\<lambda>call (gid, descriptors). \<exists>tok.
         call = ModifyReservedInstances tok [gid]
           (move_configurations descriptors @ remainder_configuration
              (st_groups ?st ! fst (last descriptors))))
       calls (st_modifications ?st)"
    using c1
  proof (rule list.rel_mono_strong)
    fix call b
    assume b: "b \<in> set (st_modifications ?st)"
      and h: "\<exists>tok gid cfgs. target_configurations_of (st_groups ?st) (snd b) = Inr (gid, cfgs) \<and>
          call = ModifyReservedInstances tok [gid] cfgs"
    obtain gid descriptors where b': "b = (gid, descriptors)" by (cases b)
    from target_configurations_of_batch [OF inv b [unfolded b']] h
    show "case b of (gid, descriptors) \<Rightarrow> \<exists>tok.
         call = ModifyReservedInstances tok [gid]
           (move_configurations descriptors @ remainder_configuration
              (st_groups ?st ! fst (last descriptors)))"
      by (auto simp: b')
  qed
  have "execute_plan conn creds region plan True trace = Inr (new, trace @ calls)"
    using r by (simp add: execute_plan_def Let_def)
  then show ?thesis using c2 i by blast
qed

subsection \<open>Plan execution: what one action moves\<close>

lemma batch_total_snoc:
  "batch_total (descriptors @ [(r, dest_az, c)]) = batch_total descriptors + c"
  by (simp add: batch_total_def)

lemma total_moved_move_step:
  "total_moved (move_step dest_az r cnt st) =
     total_moved st + min cnt (instance_count (st_groups st ! r))"
  by (simp add: total_moved_def move_step_def Let_def sum_list_update dict_get_def
      batch_total_snoc batch_total_def split: option.splits)

lemma sum_list_nonneg_pos:
  fixes f :: "'a \<Rightarrow> int"
  shows "\<forall>x \<in> set xs. 0 < f x \<Longrightarrow> 0 \<le> sum_list (map f xs)"
  by (induction xs) auto

lemma move_loop_total:
  assumes "distinct donor_groups"
    and "\<forall>j. index \<le> j \<and> j < length donor_groups \<longrightarrow>
           0 < instance_count (st_groups st ! (donor_groups ! j))"
  shows "total_moved (move_loop dest_az donor_groups index cnt st) =
     total_moved st + min (max 0 cnt)
       (sum_list (map (\<lambda>g. instance_count (st_groups st ! g)) (drop index donor_groups)))"
  using assms
proof (induction "length donor_groups - index" arbitrary: index cnt st)
  case 0
  then have "\<not> index < length donor_groups" by simp
  then show ?case
    by (subst move_loop_unfold) simp
next
  case (Suc n)
  let ?c = "\<lambda>st g. instance_count (st_groups st ! g)"
  have idx: "index < length donor_groups" using Suc.hyps(2) by simp
  let ?r = "donor_groups ! index"
  let ?rest = "drop (Suc index) donor_groups"
  have drop: "drop index donor_groups = ?r # ?rest"
    using idx by (simp add: Cons_nth_drop_Suc)
  have pos_all: "\<forall>g \<in> set (drop index donor_groups). 0 < ?c st g"
  proof
    fix g
    assume "g \<in> set (drop index donor_groups)"
    then obtain j where "j < length (drop index donor_groups)"
      and "g = drop index donor_groups ! j"
      by (auto simp: in_set_conv_nth)
    then show "0 < ?c st g"
      using Suc.prems(2) [rule_format, of "index + j"] by simp
  qed
  have c_pos: "0 < ?c st ?r" using pos_all drop by simp
  have rest_nonneg: "0 \<le> sum_list (map (?c st) ?rest)"
    using pos_all drop by (intro sum_list_nonneg_pos) simp
  show ?case
  proof (cases "cnt > 0")
    case False
    then have "move_loop dest_az donor_groups index cnt st = st"
      by (subst move_loop_unfold) simp
    then show ?thesis
      using False c_pos rest_nonneg by (simp add: drop)
  next
    case True
    let ?st' = "move_step dest_az ?r cnt st"
    let ?move = "min cnt (?c st ?r)"
    have notin: "?r \<notin> set ?rest"
      using Suc.prems(1) idx drop
      by (metis distinct.simps(2) distinct_drop)
    have same: "map (?c ?st') ?rest = map (?c st) ?rest"
    proof (rule map_cong [OF refl])
      fix g
      assume "g \<in> set ?rest"
      then have "g \<noteq> ?r" using notin by blast
      then show "?c ?st' g = ?c st g" by (simp add: move_step_other)
    qed
    have rest': "\<forall>j. index + 1 \<le> j \<and> j < length donor_groups \<longrightarrow>
           0 < instance_count (st_groups ?st' ! (donor_groups ! j))"
    proof (intro allI impI)
      fix j
      assume j: "index + 1 \<le> j \<and> j < length donor_groups"
      then have "donor_groups ! j \<noteq> ?r"
        using Suc.prems(1) idx by (simp add: nth_eq_iff_index_eq)
      then show "0 < instance_count (st_groups ?st' ! (donor_groups ! j))"
        using Suc.prems(2) j by (simp add: move_step_other)
    qed
    have n: "n = length donor_groups - (index + 1)"
      using Suc.hyps(2) by simp
    have "total_moved (move_loop dest_az donor_groups (index + 1) (cnt - ?move) ?st') =
        total_moved ?st' + min (max 0 (cnt - ?move))
          (sum_list (map (?c ?st') (drop (index + 1) donor_groups)))"
      using n Suc.prems(1) rest' by (rule Suc.hyps(1))
    then have unfolded: "total_moved (move_loop dest_az donor_groups index cnt st) =
        total_moved st + (?move + min (max 0 (cnt - ?move)) (sum_list (map (?c st) ?rest)))"
      using True idx by (subst move_loop_unfold) (simp add: same total_moved_move_step)
    have arith: "?move + min (max 0 (cnt - ?move)) (sum_list (map (?c st) ?rest)) =
        min (max 0 cnt) (?c st ?r + sum_list (map (?c st) ?rest))"
      using True c_pos rest_nonneg by (simp add: min_def max_def)
    show ?thesis
      unfolding unfolded arith by (simp add: drop)
  qed
qed

lemma plan_loop_append: "plan_loop (xs @ ys) st = plan_loop ys (plan_loop xs st)"
  by (induction xs arbitrary: st) auto

lemma build_modifications_step:
  assumes "n < length plan"
  shows "build_modifications G (take (Suc n) plan) =
     (case plan ! n of (itype, source_az, dest_az, cnt) \<Rightarrow>
        move_loop dest_az
          (select_donor_groups (st_groups (build_modifications G (take n plan))) itype source_az)
          0 cnt (build_modifications G (take n plan)))"
  using assms
  by (cases "plan ! n")
    (simp add: build_modifications_def take_Suc_conv_app_nth plan_loop_append)

lemma action_total:
  assumes "n < length plan"
  shows "total_moved (build_modifications G (take (Suc n) plan)) =
     total_moved (build_modifications G (take n plan)) +
     (case plan ! n of (itype, source_az, dest_az, cnt) \<Rightarrow>
        min (max 0 cnt)
          (available (st_groups (build_modifications G (take n plan))) itype source_az))"
proof -
  obtain itype source_az dest_az cnt where a: "plan ! n = (itype, source_az, dest_az, cnt)"
    by (cases "plan ! n") auto
  let ?st = "build_modifications G (take n plan)"
  let ?dgs = "select_donor_groups (st_groups ?st) itype source_az"
  have "total_moved (move_loop dest_az ?dgs 0 cnt ?st) =
     total_moved ?st + min (max 0 cnt)
       (sum_list (map (\<lambda>g. instance_count (st_groups ?st ! g)) (drop 0 ?dgs)))"
    using select_donor_groups_props [of "st_groups ?st" itype source_az]
    by (intro move_loop_total) simp_all
  then show ?thesis
    by (simp add: build_modifications_step [OF assms] a available_def)
qed

lemma moved_out_bound:
  assumes "exec_inv G st" and "r < length G"
  shows "moved_out st r \<le> max 0 (instance_count (G ! r))"
proof -
  have "instance_count (st_groups st ! r) + moved_out st r = instance_count (G ! r)"
    and "min 0 (instance_count (G ! r)) \<le> instance_count (st_groups st ! r)"
    using assms by (simp_all add: exec_inv_def)
  then show ?thesis by (simp add: min_def max_def split: if_splits)
qed

subsection \<open>Plan execution: which groups get a batch\<close>

lemma elem_le_sum_list:
  fixes f :: "'a \<Rightarrow> int"
  shows "x \<in> set xs \<Longrightarrow> \<forall>y \<in> set xs. 0 \<le> f y \<Longrightarrow> f x \<le> sum_list (map f xs)"
proof (induction xs)
  case Nil
  then show ?case by simp
next
  case (Cons a xs)
  have nn: "0 \<le> sum_list (map f xs)"
    using Cons.prems(2) by (intro sum_list_nonneg) auto
  show ?case
  proof (cases "x = a")
    case True
    then show ?thesis using nn by simp
  next
    case False
    then have "f x \<le> sum_list (map f xs)" using Cons by simp
    moreover have "0 \<le> f a" using Cons.prems(2) by simp
    ultimately show ?thesis by simp
  qed
qed

lemma sum_list_pos_elem:
  fixes f :: "'a \<Rightarrow> int"
  shows "0 < sum_list (map f xs) \<Longrightarrow> \<exists>x \<in> set xs. 0 < f x"
proof (induction xs)
  case Nil
  then show ?case by simp
next
  case (Cons a xs)
  show ?case
  proof (cases "0 < f a")
    case True
    then show ?thesis by simp
  next
    case False
    then have "0 < sum_list (map f xs)" using Cons.prems by simp
    then show ?thesis using Cons.IH by auto
  qed
qed

lemma descriptor_total_ge:
  assumes "(r, dest_az, c) \<in> set descriptors"
    and "\<forall>(r', dest', c') \<in> set descriptors. 0 < c'"
  shows "c \<le> descriptor_total r descriptors"
proof -
  let ?f = "\<lambda>d :: move_descriptor. (case d of (r', dest', c') \<Rightarrow> c')"
  let ?ds = "filter (\<lambda>(r', dest', c'). r' = r) descriptors"
  have "(r, dest_az, c) \<in> set ?ds" using assms(1) by simp
  moreover have "\<forall>y \<in> set ?ds. 0 \<le> ?f y" using assms(2) by fastforce
  ultimately have "?f (r, dest_az, c) \<le> sum_list (map ?f ?ds)"
    by (rule elem_le_sum_list)
  then show ?thesis by (simp add: descriptor_total_def)
qed

lemma descriptor_total_nonneg:
  assumes "\<forall>(r', dest', c') \<in> set descriptors. 0 < c'"
  shows "0 \<le> descriptor_total r descriptors"
  unfolding descriptor_total_def using assms by (intro sum_list_nonneg) fastforce

lemma descriptor_total_pos_elem:
  assumes "0 < descriptor_total r descriptors"
  shows "\<exists>dest_az c. (r, dest_az, c) \<in> set descriptors"
proof -
  from sum_list_pos_elem [OF assms [unfolded descriptor_total_def]]
  show ?thesis by auto
qed

lemma touched_keys:
  assumes inv: "exec_inv G st"
  shows "set (map fst (st_modifications st)) =
     {group_id (G ! r) | r. r < length G \<and>
        instance_count (st_groups st ! r) < instance_count (G ! r)}"
proof (intro equalityI subsetI)
  fix gid
  assume "gid \<in> set (map fst (st_modifications st))"
  then obtain descriptors where mem: "(gid, descriptors) \<in> set (st_modifications st)"
    by auto
  have ne: "descriptors \<noteq> []"
    and refs: "\<forall>(r, dest_az, c) \<in> set descriptors. r < length G \<and> group_id (G ! r) = gid \<and> 0 < c"
    using inv mem by (auto simp: exec_inv_def)
  obtain r dest0 c0 where first: "(r, dest0, c0) \<in> set descriptors"
    using ne by (cases descriptors) auto
  have r: "r < length G" and gid: "group_id (G ! r) = gid" and c0: "0 < c0"
    using refs first by auto
  have "c0 \<le> descriptor_total r descriptors"
    using first refs by (intro descriptor_total_ge) auto
  also have "\<dots> \<le> moved_out st r"
  proof -
    let ?f = "\<lambda>(gid, descriptors). descriptor_total r descriptors"
    have "\<forall>y \<in> set (st_modifications st). 0 \<le> ?f y"
    proof
      fix y
      assume y: "y \<in> set (st_modifications st)"
      obtain k ds where y': "y = (k, ds)" by (cases y)
      have "\<forall>(r', dest', c') \<in> set ds. 0 < c'"
        using inv y y' by (auto simp: exec_inv_def)
      then show "0 \<le> ?f y" by (simp add: y' descriptor_total_nonneg)
    qed
    with mem have "?f (gid, descriptors) \<le> sum_list (map ?f (st_modifications st))"
      by (rule elem_le_sum_list)
    then show ?thesis by (simp add: moved_out_def)
  qed
  finally have "0 < moved_out st r" using c0 by simp
  moreover have "instance_count (st_groups st ! r) + moved_out st r = instance_count (G ! r)"
    using inv r by (simp add: exec_inv_def)
  ultimately have "instance_count (st_groups st ! r) < instance_count (G ! r)" by simp
  then show "gid \<in> {group_id (G ! r) | r. r < length G \<and>
        instance_count (st_groups st ! r) < instance_count (G ! r)}"
    using r gid by blast
next
  fix gid
  assume "gid \<in> {group_id (G ! r) | r. r < length G \<and>
        instance_count (st_groups st ! r) < instance_count (G ! r)}"
  then obtain r where r: "r < length G" and gid: "gid = group_id (G ! r)"
    and less: "instance_count (st_groups st ! r) < instance_count (G ! r)"
    by blast
  have "instance_count (st_groups st ! r) + moved_out st r = instance_count (G ! r)"
    using inv r by (simp add: exec_inv_def)
  then have "0 < moved_out st r" using less by simp
  then obtain b where b: "b \<in> set (st_modifications st)"
    and pos: "0 < (case b of (gid, descriptors) \<Rightarrow> descriptor_total r descriptors)"
    unfolding moved_out_def by (blast dest: sum_list_pos_elem)
  obtain k ds where b': "b = (k, ds)" by (cases b)
  obtain dest_az c where d: "(r, dest_az, c) \<in> set ds"
    using pos descriptor_total_pos_elem [of r ds] by (auto simp: b')
  have "group_id (G ! r) = k"
    using inv b d by (auto simp: exec_inv_def b')
  then show "gid \<in> set (map fst (st_modifications st))"
    using b gid by (force simp: b')
qed

lemma list_all2_left_elem:
  "list_all2 P xs ys \<Longrightarrow> x \<in> set xs \<Longrightarrow> \<exists>y \<in> set ys. P x y"
  by (induction xs ys rule: list_all2_induct) auto

subsection \<open>Plan execution: the claims\<close>

text \<open>
  C2. When the fetched groups have distinct ids, every batch that plan execution forms
  belongs to one group \<open>r\<close> of the fetched list: its target configurations are the moves
  of its descriptors followed by the remainder configuration of that group (present
  when the group has capacity left, which is never negative), and the counts of these
  configurations add up to the capacity the group had when it was fetched. In live mode
  every request sent names one fetched group and carries configurations that add up to
  that group's original capacity.
\<close>

theorem execute_plan_conserves_capacity:
  assumes "distinct (map group_id ri_groups)"
  shows "(\<forall>(gid, descriptors) \<in> set (st_modifications (build_modifications ri_groups plan)).
        \<exists>r < length ri_groups. group_id (ri_groups ! r) = gid \<and>
          target_configurations_of (st_groups (build_modifications ri_groups plan)) descriptors =
            Inr (gid, move_configurations descriptors @
                   remainder_configuration (st_groups (build_modifications ri_groups plan) ! r)) \<and>
          0 \<le> instance_count (st_groups (build_modifications ri_groups plan) ! r) \<and>
          batch_total descriptors +
            instance_count (st_groups (build_modifications ri_groups plan) ! r) =
            instance_count (ri_groups ! r) \<and>
          sum_list (map cfg_instance_count
            (move_configurations descriptors @
               remainder_configuration (st_groups (build_modifications ri_groups plan) ! r))) =
            instance_count (ri_groups ! r)) \<and>
     (\<forall>conn creds region trace.
        get_all_reserved_instances conn creds region = ri_groups \<longrightarrow>
        (\<exists>ids calls. execute_plan conn creds region plan True trace = Inr (ids, trace @ calls) \<and>
           (\<forall>call \<in> set calls. \<exists>tok cfgs. \<exists>r < length ri_groups.
              call = ModifyReservedInstances tok [group_id (ri_groups ! r)] cfgs \<and>
              sum_list (map cfg_instance_count cfgs) = instance_count (ri_groups ! r))))"
proof -
  let ?st = "build_modifications ri_groups plan"
  have inv: "exec_inv ri_groups ?st" by (rule build_modifications_inv)
  have batch: "\<exists>r < length ri_groups. group_id (ri_groups ! r) = gid \<and>
          target_configurations_of (st_groups ?st) descriptors =
            Inr (gid, move_configurations descriptors @
                   remainder_configuration (st_groups ?st ! r)) \<and>
          st_groups ?st ! fst (last descriptors) = st_groups ?st ! r \<and>
          0 \<le> instance_count (st_groups ?st ! r) \<and>
          batch_total descriptors + instance_count (st_groups ?st ! r) =
            instance_count (ri_groups ! r) \<and>
          sum_list (map cfg_instance_count
            (move_configurations descriptors @ remainder_configuration (st_groups ?st ! r))) =
            instance_count (ri_groups ! r)"
    if mem: "(gid, descriptors) \<in> set (st_modifications ?st)" for gid descriptors
  proof -
    from batch_conservation [OF inv mem assms]
    obtain r where r: "r < length ri_groups" and gid: "group_id (ri_groups ! r) = gid"
      and same: "\<forall>(r', dest_az, c) \<in> set descriptors. r' = r"
      and left: "0 \<le> instance_count (st_groups ?st ! r)"
      and total: "batch_total descriptors + instance_count (st_groups ?st ! r) =
          instance_count (ri_groups ! r)"
      by blast
    have ne: "descriptors \<noteq> []" using inv mem by (auto simp: exec_inv_def)
    then have "last descriptors \<in> set descriptors" by simp
    with same have last: "fst (last descriptors) = r"
      by (auto simp: split_beta)
    have tc: "target_configurations_of (st_groups ?st) descriptors =
        Inr (gid, move_configurations descriptors @ remainder_configuration (st_groups ?st ! r))"
      using target_configurations_of_batch [OF inv mem] by (simp add: last)
    have "sum_list (map cfg_instance_count
            (move_configurations descriptors @ remainder_configuration (st_groups ?st ! r))) =
          instance_count (ri_groups ! r)"
      using left total by (simp add: batch_total_configurations remainder_configuration_def)
    then show ?thesis using r gid tc left total last by auto
  qed
  have live: "\<exists>ids calls. execute_plan conn creds region plan True trace =
        Inr (ids, trace @ calls) \<and>
      (\<forall>call \<in> set calls. \<exists>tok cfgs. \<exists>r < length ri_groups.
          call = ModifyReservedInstances tok [group_id (ri_groups ! r)] cfgs \<and>
          sum_list (map cfg_instance_count cfgs) = instance_count (ri_groups ! r))"
    if G: "get_all_reserved_instances conn creds region = ri_groups"
    for conn creds region trace
  proof -
    from execute_plan_live [of conn creds region plan trace]
    obtain ids calls where
      r: "execute_plan conn creds region plan True trace = Inr (ids, trace @ calls)"
      and c: "list_all2 (\<lambda>call (gid, descriptors). \<exists>tok.
         call = ModifyReservedInstances tok [gid]
           (move_configurations descriptors @ remainder_configuration
              (st_groups ?st ! fst (last descriptors))))
         calls (st_modifications ?st)"
      unfolding G by blast
    have "\<exists>tok cfgs. \<exists>r < length ri_groups.
          call = ModifyReservedInstances tok [group_id (ri_groups ! r)] cfgs \<and>
          sum_list (map cfg_instance_count cfgs) = instance_count (ri_groups ! r)"
      if "call \<in> set calls" for call
    proof -
      from that c obtain b where b: "b \<in> set (st_modifications ?st)"
        and rel: "(case b of (gid, descriptors) \<Rightarrow> \<exists>tok.
           call = ModifyReservedInstances tok [gid]
             (move_configurations descriptors @ remainder_configuration
                (st_groups ?st ! fst (last descriptors))))"
        by (blast dest: list_all2_left_elem)
      obtain gid descriptors where b': "b = (gid, descriptors)" by (cases b)
      from batch [OF b [unfolded b']] rel show ?thesis
        by (auto simp: b')
    qed
    then show ?thesis using r by blast
  qed
  from batch live show ?thesis by blast
qed

text \<open>
  C4. In dry-run mode \<^verbatim>\<open>execute_plan\<close> leaves the trace of requests as it was and returns
  the sentinel once per batch. In live mode it appends one modification request per
  batch, in the order of the batches, each naming exactly the batch's group id, and
  returns what the collaborator answered to each. The batches have distinct ids, and
  these ids are the ids of the groups whose capacity the plan has lowered: one request
  per donor group touched, however many actions drew from it.
\<close>

theorem execute_plan_modification_calls:
  "let ri_groups = get_all_reserved_instances conn creds region;
       st = build_modifications ri_groups plan
   in execute_plan conn creds region plan False trace =
        Inr (replicate (length (st_modifications st)) ''rimod-<DRY-RUN>'', trace) \<and>
      (\<exists>ids calls. execute_plan conn creds region plan True trace = Inr (ids, trace @ calls) \<and>
         list_all2 (\<lambda>call (gid, descriptors). \<exists>tok cfgs.
             call = ModifyReservedInstances tok [gid] cfgs) calls (st_modifications st) \<and>
         list_all2 (\<lambda>i call. \<exists>tok gids cfgs. call = ModifyReservedInstances tok gids cfgs \<and>
             i = modify_reserved_instances conn tok gids cfgs) ids calls) \<and>
      distinct (map fst (st_modifications st)) \<and>
      set (map fst (st_modifications st)) =
        {group_id (ri_groups ! r) | r. r < length ri_groups \<and>
           instance_count (st_groups st ! r) < instance_count (ri_groups ! r)}"
proof -
  let ?G = "get_all_reserved_instances conn creds region"
  let ?st = "build_modifications ?G plan"
  have inv: "exec_inv ?G ?st" by (rule build_modifications_inv)
  from execute_plan_live [of conn creds region plan trace]
  obtain ids calls where
    r: "execute_plan conn creds region plan True trace = Inr (ids, trace @ calls)"
    and c: "list_all2 (\<lambda>call (gid, descriptors). \<exists>tok.
       call = ModifyReservedInstances tok [gid]
         (move_configurations descriptors @ remainder_configuration
            (st_groups ?st ! fst (last descriptors))))
       calls (st_modifications ?st)"
    and i: "list_all2 (\<lambda>i call. \<exists>tok gids cfgs. call = ModifyReservedInstances tok gids cfgs \<and>
         i = modify_reserved_instances conn tok gids cfgs) ids calls"
    by blast
  have c': "list_all2 (\<lambda>call (gid, descriptors). \<exists>tok cfgs.
       call = ModifyReservedInstances tok [gid] cfgs) calls (st_modifications ?st)"
    using c by (rule list_all2_mono) auto
  have "distinct (map fst (st_modifications ?st))"
    using inv by (simp add: exec_inv_def)
  then show ?thesis
    unfolding Let_def using execute_plan_dry [of conn creds region plan trace] r c' i
      touched_keys [OF inv]
    by blast
qed

text \<open>
  C10. For every plan and list of groups: what the descriptors take out of a group is at
  most the capacity it was fetched with (nothing for a capacity below 1); each action
  adds descriptors for the smaller of its count and the capacity left in the matching
  groups, so an excess leaves no descriptor; and in either mode \<^verbatim>\<open>execute_plan\<close> returns,
  without raising, one identifier per batch formed.
\<close>

theorem execute_plan_drops_excess:
  "(\<forall>r < length ri_groups.
      moved_out (build_modifications ri_groups plan) r \<le> max 0 (instance_count (ri_groups ! r))) \<and>
   (\<forall>n < length plan.
      total_moved (build_modifications ri_groups (take (Suc n) plan)) =
      total_moved (build_modifications ri_groups (take n plan)) +
      (case plan ! n of (itype, source_az, dest_az, cnt) \<Rightarrow>
         min (max 0 cnt)
           (available (st_groups (build_modifications ri_groups (take n plan))) itype source_az))) \<and>
   (\<forall>conn creds region optimize trace.
      get_all_reserved_instances conn creds region = ri_groups \<longrightarrow>
      (\<exists>ids trace'. execute_plan conn creds region plan optimize trace = Inr (ids, trace') \<and>
         length ids = length (st_modifications (build_modifications ri_groups plan))))"
proof -
  let ?st = "build_modifications ri_groups plan"
  have inv: "exec_inv ri_groups ?st" by (rule build_modifications_inv)
  have 1: "\<forall>r < length ri_groups. moved_out ?st r \<le> max 0 (instance_count (ri_groups ! r))"
    using moved_out_bound [OF inv] by blast
  have 2: "\<forall>n < length plan.
      total_moved (build_modifications ri_groups (take (Suc n) plan)) =
      total_moved (build_modifications ri_groups (take n plan)) +
      (case plan ! n of (itype, source_az, dest_az, cnt) \<Rightarrow>
         min (max 0 cnt)
           (available (st_groups (build_modifications ri_groups (take n plan))) itype source_az))"
    using action_total by blast
  have 3: "\<exists>ids trace'. execute_plan conn creds region plan optimize trace = Inr (ids, trace') \<and>
         length ids = length (st_modifications ?st)"
    if G: "get_all_reserved_instances conn creds region = ri_groups"
    for conn creds region optimize trace
  proof (cases optimize)
    case False
    then show ?thesis
      using execute_plan_dry [of conn creds region plan trace] by (simp add: G)
  next
    case True
    from execute_plan_live [of conn creds region plan trace]
    obtain ids calls where
      r: "execute_plan conn creds region plan True trace = Inr (ids, trace @ calls)"
      and c: "list_all2 (\<lambda>call (gid, descriptors). \<exists>tok.
         call = ModifyReservedInstances tok [gid]
           (move_configurations descriptors @ remainder_configuration
              (st_groups ?st ! fst (last descriptors))))
         calls (st_modifications ?st)"
      and i: "list_all2 (\<lambda>i call. \<exists>tok gids cfgs. call = ModifyReservedInstances tok gids cfgs \<and>
         i = modify_reserved_instances conn tok gids cfgs) ids calls"
      unfolding G by blast
    have "length ids = length (st_modifications ?st)"
      using c i by (simp add: list_all2_lengthD)
    then show ?thesis using r by (auto simp: True)
  qed
  from 1 2 3 show ?thesis by blast
qed

subsection \<open>Plan execution: examples\<close>

lemma example_build:
  "build_modifications example_groups example_plan =
     \<lparr>st_groups =
        [\<lparr>group_id = ''ri-1'', instance_type = ''m4.large'', availability_zone = ''us-east-1a'',
          instance_count = 2\<rparr>,
         \<lparr>group_id = ''ri-2'', instance_type = ''m4.large'', availability_zone = ''us-east-1a'',
          instance_count = 2\<rparr>],
      st_modifications = [(''ri-1'', [(0, ''us-east-1b'', 2), (0, ''us-east-1c'', 1)])]\<rparr>"
  by (simp add: build_modifications_def example_groups_def example_plan_def
      select_donor_groups_def move_loop.simps Let_def)

lemma example_excess_build:
  "build_modifications example_groups example_excess_plan =
     \<lparr>st_groups =
        [\<lparr>group_id = ''ri-1'', instance_type = ''m4.large'', availability_zone = ''us-east-1a'',
          instance_count = 0\<rparr>,
         \<lparr>group_id = ''ri-2'', instance_type = ''m4.large'', availability_zone = ''us-east-1a'',
          instance_count = 0\<rparr>],
      st_modifications =
        [(''ri-1'', [(0, ''us-east-1b'', 5)]), (''ri-2'', [(1, ''us-east-1b'', 2)])]\<rparr>"
  by (simp add: build_modifications_def example_groups_def example_excess_plan_def
      select_donor_groups_def move_loop.simps Let_def)

lemma example_conn_groups:
  "get_all_reserved_instances example_conn credentials region = example_groups"
  by (simp add: example_conn_def)

theorem execute_plan_conserves_capacity_witness:
  "distinct (map group_id example_groups) \<and>
   (''ri-1'', [(0, ''us-east-1b'', 2), (0, ''us-east-1c'', 1)]) \<in>
      set (st_modifications (build_modifications example_groups example_plan)) \<and>
   (\<exists>r < length example_groups. group_id (example_groups ! r) = ''ri-1'' \<and>
      batch_total [(0, ''us-east-1b'', 2), (0, ''us-east-1c'', 1)] +
        instance_count (st_groups (build_modifications example_groups example_plan) ! r) =
        instance_count (example_groups ! r) \<and>
      sum_list (map cfg_instance_count
        (move_configurations [(0, ''us-east-1b'', 2), (0, ''us-east-1c'', 1)] @
           remainder_configuration
             (st_groups (build_modifications example_groups example_plan) ! r))) =
        instance_count (example_groups ! r))"
proof -
  have d: "distinct (map group_id example_groups)"
    by (simp add: example_groups_def)
  have mem: "(''ri-1'', [(0, ''us-east-1b'', 2), (0, ''us-east-1c'', 1)]) \<in>
      set (st_modifications (build_modifications example_groups example_plan))"
    by (simp add: example_build)
  from execute_plan_conserves_capacity [OF d, of example_plan] mem
  have "\<exists>r < length example_groups. group_id (example_groups ! r) = ''ri-1'' \<and>
      batch_total [(0, ''us-east-1b'', 2), (0, ''us-east-1c'', 1)] +
        instance_count (st_groups (build_modifications example_groups example_plan) ! r) =
        instance_count (example_groups ! r) \<and>
      sum_list (map cfg_instance_count
        (move_configurations [(0, ''us-east-1b'', 2), (0, ''us-east-1c'', 1)] @
           remainder_configuration
             (st_groups (build_modifications example_groups example_plan) ! r))) =
        instance_count (example_groups ! r)"
    by fast
  with d mem show ?thesis by blast
qed

theorem execute_plan_modification_calls_witness:
  "length example_plan = 2 \<and>
   execute_plan example_conn (''key'', ''secret'') ''us-east-1'' example_plan False [] =
     Inr ([''rimod-<DRY-RUN>''], []) \<and>
   (\<exists>ids tok cfgs.
      execute_plan example_conn (''key'', ''secret'') ''us-east-1'' example_plan True [] =
        Inr (ids, [ModifyReservedInstances tok [''ri-1''] cfgs]))"
proof -
  have len: "length example_plan = 2" by (simp add: example_plan_def)
  note t = execute_plan_modification_calls
    [of example_conn "(''key'', ''secret'')" "''us-east-1''" example_plan "[]",
      unfolded Let_def example_conn_groups example_build]
  have dry: "execute_plan example_conn (''key'', ''secret'') ''us-east-1'' example_plan False [] =
       Inr ([''rimod-<DRY-RUN>''], [])"
    using t [THEN conjunct1] by simp
  from t [THEN conjunct2, THEN conjunct1]
  obtain ids calls where
    r: "execute_plan example_conn (''key'', ''secret'') ''us-east-1'' example_plan True [] =
         Inr (ids, [] @ calls)"
    and c: "list_all2 (\<lambda>call (gid, descriptors). \<exists>tok cfgs.
           call = ModifyReservedInstances tok [gid] cfgs) calls
         (st_modifications
           \<lparr>st_groups =
              [\<lparr>group_id = ''ri-1'', instance_type = ''m4.large'',
                 availability_zone = ''us-east-1a'', instance_count = 2\<rparr>,
               \<lparr>group_id = ''ri-2'', instance_type = ''m4.large'',
                 availability_zone = ''us-east-1a'', instance_count = 2\<rparr>],
            st_modifications =
              [(''ri-1'', [(0, ''us-east-1b'', 2), (0, ''us-east-1c'', 1)])]\<rparr>)"
    by blast
  from c obtain tok cfgs where "calls = [ModifyReservedInstances tok [''ri-1''] cfgs]"
    by (auto simp: list_all2_Cons2)
  with r len dry show ?thesis by auto
qed

theorem execute_plan_drops_excess_witness:
  "moved_out (build_modifications example_groups example_excess_plan) 0 \<le> 5 \<and>
   total_moved (build_modifications example_groups example_excess_plan) = 7 \<and>
   (\<exists>ids trace'.
      execute_plan example_conn (''key'', ''secret'') ''us-east-1'' example_excess_plan True [] =
        Inr (ids, trace') \<and> length ids = 2)"
proof -
  note t = execute_plan_drops_excess [of example_groups example_excess_plan]
  have l: "0 < length example_groups" by (simp add: example_groups_def)
  have c: "instance_count (example_groups ! 0) = 5" by (simp add: example_groups_def)
  have "moved_out (build_modifications example_groups example_excess_plan) 0 \<le>
      max 0 (instance_count (example_groups ! 0))"
    using t [THEN conjunct1, rule_format, of 0] l by blast
  then have 1: "moved_out (build_modifications example_groups example_excess_plan) 0 \<le> 5"
    by (simp add: c)
  have p: "0 < length example_excess_plan" by (simp add: example_excess_plan_def)
  have "total_moved (build_modifications example_groups (take (Suc 0) example_excess_plan)) =
      total_moved (build_modifications example_groups (take 0 example_excess_plan)) +
      (case example_excess_plan ! 0 of (itype, source_az, dest_az, cnt) \<Rightarrow>
         min (max 0 cnt)
           (available (st_groups (build_modifications example_groups
              (take 0 example_excess_plan))) itype source_az))"
    using t [THEN conjunct2, THEN conjunct1, rule_format, of 0] p by blast
  then have 2: "total_moved (build_modifications example_groups example_excess_plan) = 7"
    by (simp add: example_excess_plan_def build_modifications_def total_moved_def
        available_def select_donor_groups_def example_groups_def)
  have "\<exists>ids trace'.
      execute_plan example_conn (''key'', ''secret'') ''us-east-1'' example_excess_plan True [] =
        Inr (ids, trace') \<and>
      length ids = length (st_modifications
        (build_modifications example_groups example_excess_plan))"
    using t [THEN conjunct2, THEN conjunct2, rule_format, OF example_conn_groups] by blast
  then have 3: "\<exists>ids trace'.
      execute_plan example_conn (''key'', ''secret'') ''us-east-1'' example_excess_plan True [] =
        Inr (ids, trace') \<and> length ids = 2"
    by (simp add: example_excess_build numeral_2_eq_2)
  from 1 2 3 show ?thesis by blast
qed

subsection \<open>The whole run\<close>

lemma check_zones_available:
  "\<forall>z \<in> set zones. zone_state z = ''available'' \<Longrightarrow>
   check_zones zones acc = Inr (acc @ map zone_name zones)"
  by (induction zones arbitrary: acc) auto

lemma check_zones_unavailable:
  "\<not> (\<forall>z \<in> set zones. zone_state z = ''available'') \<Longrightarrow>
   check_zones zones acc = Inl TypeError"
  by (induction zones arbitrary: acc) auto

lemma distinct_count_reserved:
  "distinct (map fst acc) \<Longrightarrow> distinct (map fst (count_reserved groups acc))"
  by (induction groups arbitrary: acc)
    (simp_all add: Let_def distinct_update split: option.splits)

lemma distinct_compute_ri_mistmatch:
  "distinct (map fst reserved) \<Longrightarrow> distinct (map fst (compute_ri_mistmatch reserved demand))"
  by (simp add: compute_ri_mistmatch_def distinct_filter_keys distinct_subtract_items)

lemma distinct_clean_mismatch:
  "distinct (map fst m) \<Longrightarrow> distinct (map fst (fst (eliminate_unsupported_zones m zones)))"
  by (simp add: eliminate_unsupported_zones_def distinct_filter_keys)

lemma greedy_distribution_returns:
  assumes "distinct (map fst mismatch)"
  shows "\<exists>plan. greedy_distribution mismatch = Inr plan"
proof -
  let ?rs = "filter (\<lambda>(k, d). d < 0) mismatch"
  let ?ds = "filter (\<lambda>(k, d). 0 < d) mismatch"
  have md: "map_of ?ds k =
      (case map_of mismatch k of None \<Rightarrow> None | Some d \<Rightarrow> if 0 < d then Some d else None)"
    for k
    using assms by (rule map_of_filter_distinct)
  have "\<exists>plan'. distribute ?rs ?ds [] = Inr plan' \<and>
      (\<forall>k. moved_from k plan' \<le> moved_from k [] + dict_get ?ds k 0) \<and>
      (\<forall>k. moved_into k plan' \<le> moved_into k [] - total_of k ?rs) \<and>
      (\<forall>a \<in> set plan'. a \<in> set [] \<or> 0 < snd (snd (snd a)))"
  proof (rule distribute_correct)
    show "distinct (map fst ?ds)" using assms by (rule distinct_filter_keys)
    show "\<And>k c. map_of ?ds k = Some c \<Longrightarrow> 0 < c"
      by (simp add: md split: option.splits if_splits)
    show "\<forall>p \<in> set ?rs. snd p < 0" by auto
  qed
  then show ?thesis
    using assms by (auto simp: greedy_distribution_filter)
qed

lemma publish_cw_metrics_no_modification:
  "filter is_modification (publish_cw_metrics region surplus trace) =
     filter is_modification trace"
  by (induction surplus arbitrary: trace) auto

text \<open>
  C5. In every run in which the list of modifications still processing is not empty,
  whatever the caller passed for \<^verbatim>\<open>optimize\<close>: when all zones are available the run
  returns; the returned plan is what the greedy planner computes from the returned clean
  mismatch; the returned modification ids are the sentinel, once per batch of that plan,
  and nothing else; and the trace holds no modification request. When some zone is not
  available the run raises before anything is planned.
\<close>

theorem riptimize_inflight_forces_dry_run:
  assumes "describe_reserved_instances_modifications conn ri_account_credentials region \<noteq> []"
  shows "if \<forall>z \<in> set (get_all_zones conn ri_account_credentials region).
              zone_state z = ''available''
     then \<exists>res trace.
        riptimize conn all_accounts ri_account_credentials region optimize publish_metrics =
          Inr (res, trace) \<and>
        res_clean_mismatch res =
          fst (eliminate_unsupported_zones
                 (compute_ri_mistmatch (res_ri_inventory res) (res_i_inventory res))
                 (res_supported_ri_zones res)) \<and>
        greedy_distribution (res_clean_mismatch res) = Inr (res_plan res) \<and>
        res_modification_ids res =
          replicate (length (st_modifications (build_modifications
              (get_all_reserved_instances conn ri_account_credentials region) (res_plan res))))
            ''rimod-<DRY-RUN>'' \<and>
        (\<forall>i \<in> set (res_modification_ids res). i = ''rimod-<DRY-RUN>'') \<and>
        filter is_modification trace = []
     else riptimize conn all_accounts ri_account_credentials region optimize publish_metrics =
          Inl TypeError"
proof (cases "\<forall>z \<in> set (get_all_zones conn ri_account_credentials region).
    zone_state z = ''available''")
  case False
  then have "get_ri_inventory conn ri_account_credentials region = Inl TypeError"
    by (simp add: get_ri_inventory_def check_zones_unavailable)
  then have "riptimize conn all_accounts ri_account_credentials region optimize publish_metrics =
      Inl TypeError"
    by (simp add: riptimize_def Let_def)
  with False show ?thesis by simp
next
  case True
  define by_account where "by_account = get_i_inventory_by_account conn all_accounts region"
  define i_inv where "i_inv = aggregate_inventory by_account"
  define G where "G = get_all_reserved_instances conn ri_account_credentials region"
  define ri_inv where "ri_inv = count_reserved G []"
  define zs where "zs = map zone_name (get_all_zones conn ri_account_credentials region)"
  define mods where
    "mods = describe_reserved_instances_modifications conn ri_account_credentials region"
  define clean where
    "clean = fst (eliminate_unsupported_zones (compute_ri_mistmatch ri_inv i_inv) zs)"
  define eliminated where
    "eliminated = snd (eliminate_unsupported_zones (compute_ri_mistmatch ri_inv i_inv) zs)"
  define surplus where "surplus = compute_ri_surplus clean"
  have gri: "get_ri_inventory conn ri_account_credentials region = Inr (ri_inv, zs, mods)"
    using True
    by (simp add: get_ri_inventory_def check_zones_available Let_def ri_inv_def zs_def
        mods_def G_def)
  have "distinct (map fst ri_inv)"
    unfolding ri_inv_def by (rule distinct_count_reserved) simp
  then have "distinct (map fst clean)"
    unfolding clean_def by (intro distinct_clean_mismatch distinct_compute_ri_mistmatch)
  then obtain plan where plan: "greedy_distribution clean = Inr plan"
    using greedy_distribution_returns by blast
  define n where "n = length (st_modifications (build_modifications G plan))"
  have inflight: "length mods \<noteq> 0" using assms by (simp add: mods_def)
  have ep: "(if length plan > 0
             then execute_plan conn ri_account_credentials region plan
                    (optimize \<and> \<not> length mods \<noteq> 0) []
             else Inr ([], [])) = Inr (replicate n ''rimod-<DRY-RUN>'', [])"
  proof (cases plan)
    case Nil
    then show ?thesis by (simp add: n_def build_modifications_def)
  next
    case (Cons a rest)
    then show ?thesis
      using inflight by (simp add: execute_plan_dry n_def G_def)
  qed
  define res where "res =
     \<lparr>res_i_inventory = i_inv, res_i_inventory_by_account = by_account,
      res_ri_inventory = ri_inv, res_supported_ri_zones = zs,
      res_processing_modifications = mods, res_clean_mismatch = clean,
      res_recommendations = (eliminated, filter (\<lambda>(itype, diff). diff \<noteq> 0) surplus),
      res_plan = plan, res_modification_ids = replicate n ''rimod-<DRY-RUN>''\<rparr>"
  define trace where
    "trace = (if publish_metrics then publish_cw_metrics region surplus [] else [])"
  have run: "riptimize conn all_accounts ri_account_credentials region optimize publish_metrics =
      Inr (res, trace)"
    unfolding riptimize_def Let_def
    by (simp only: by_account_def [symmetric] i_inv_def [symmetric] gri sum.case prod.case
        clean_def [symmetric] eliminated_def [symmetric] surplus_def [symmetric] plan ep
        res_def trace_def)
  have "filter is_modification trace = []"
    by (simp add: trace_def publish_cw_metrics_no_modification)
  moreover have "res_clean_mismatch res =
      fst (eliminate_unsupported_zones
             (compute_ri_mistmatch (res_ri_inventory res) (res_i_inventory res))
             (res_supported_ri_zones res))"
    by (simp add: res_def clean_def)
  moreover have "greedy_distribution (res_clean_mismatch res) = Inr (res_plan res)"
    by (simp add: res_def plan)
  moreover have "res_modification_ids res =
      replicate (length (st_modifications (build_modifications
          (get_all_reserved_instances conn ri_account_credentials region) (res_plan res))))
        ''rimod-<DRY-RUN>''"
    by (simp add: res_def n_def G_def)
  moreover have "\<forall>i \<in> set (res_modification_ids res). i = ''rimod-<DRY-RUN>''"
    by (simp add: res_def)
  ultimately show ?thesis
    using True run by auto
qed

lemma example_inflight_run:
  "riptimize example_inflight_conn [(''acct'', (''key'', ''secret''))] (''key'', ''secret'')
       ''us-east-1'' True True =
     Inr (\<lparr>res_i_inventory =
             [((''m4.large'', ''us-east-1a''), 1), ((''m4.large'', ''us-east-1b''), 2)],
           res_i_inventory_by_account =
             [(''acct'',
               [((''m4.large'', ''us-east-1a''), 1), ((''m4.large'', ''us-east-1b''), 2)])],
           res_ri_inventory = [((''m4.large'', ''us-east-1a''), 7)],
           res_supported_ri_zones = [''us-east-1a'', ''us-east-1b''],
           res_processing_modifications =
             [\<lparr>mod_modification_id = ''rimod-0'', mod_status = ''processing''\<rparr>],
           res_clean_mismatch =
             [((''m4.large'', ''us-east-1a''), 6), ((''m4.large'', ''us-east-1b''), - 2)],
           res_recommendations = ([], [(''m4.large'', 4)]),
           res_plan = [(''m4.large'', ''us-east-1a'', ''us-east-1b'', 2)],
           res_modification_ids = [''rimod-<DRY-RUN>'']\<rparr>,
          [PutMetricData ''RI-usage-us-east-1'' ''m4.large-available-RIs'' 4])"
  by (simp add: riptimize_def get_i_inventory_by_account_def get_account_i_inventory_def
      aggregate_inventory_def get_ri_inventory_def compute_ri_mistmatch_def
      eliminate_unsupported_zones_def compute_ri_surplus_def greedy_distribution_def
      dict_del_def dict_isub_def dict_in_def execute_plan_def build_modifications_def
      select_donor_groups_def move_loop.simps target_configurations_of_def
      move_reserved_instances_def example_inflight_conn_def example_groups_def Let_def)

theorem riptimize_inflight_forces_dry_run_witness:
  "describe_reserved_instances_modifications example_inflight_conn (''key'', ''secret'')
       ''us-east-1'' \<noteq> [] \<and>
   (\<exists>res trace.
      riptimize example_inflight_conn [(''acct'', (''key'', ''secret''))] (''key'', ''secret'')
          ''us-east-1'' True True = Inr (res, trace) \<and>
      res_plan res = [(''m4.large'', ''us-east-1a'', ''us-east-1b'', 2)] \<and>
      greedy_distribution (res_clean_mismatch res) = Inr (res_plan res) \<and>
      res_modification_ids res = [''rimod-<DRY-RUN>''] \<and>
      filter is_modification trace = [])"
proof -
  have inflight: "describe_reserved_instances_modifications example_inflight_conn
      (''key'', ''secret'') ''us-east-1'' \<noteq> []"
    by (simp add: example_inflight_conn_def)
  have zones: "\<forall>z \<in> set (get_all_zones example_inflight_conn (''key'', ''secret'')
      ''us-east-1''). zone_state z = ''available''"
    by (simp add: example_inflight_conn_def)
  from riptimize_inflight_forces_dry_run [OF inflight,
      of "[(''acct'', (''key'', ''secret''))]" True True] zones
  obtain res trace where
    run: "riptimize example_inflight_conn [(''acct'', (''key'', ''secret''))]
        (''key'', ''secret'') ''us-east-1'' True True = Inr (res, trace)"
    and plan: "greedy_distribution (res_clean_mismatch res) = Inr (res_plan res)"
    and ids: "\<forall>i \<in> set (res_modification_ids res). i = ''rimod-<DRY-RUN>''"
    and quiet: "filter is_modification trace = []"
    by (auto split: if_splits)
  from run have "res_plan res = [(''m4.large'', ''us-east-1a'', ''us-east-1b'', 2)]"
    and "res_modification_ids res = [''rimod-<DRY-RUN>'']"
    by (auto simp: example_inflight_run)
  with inflight run plan quiet show ?thesis by blast
qed

end
